theory Spec2Isabelle
  imports Complex_Main "HOL-Library.Sublist"
begin

section \<open>Green Travel Planner: the emission scoring engine of script.js\<close>

text \<open>
  The development follows \<^verbatim>\<open>src/script.js\<close>. JavaScript numbers are modelled twice.
  The first model takes them as exact real numbers (\<^typ>\<open>real\<close>): every arithmetic step
  of the source is carried out exactly, and \<^verbatim>\<open>Math.round\<close> is rounding to the nearest
  integer with halves going up. It serves the properties that do not depend on the size of
  the numbers: which modes are evaluated, their order, and the arithmetic the specification
  states for exact numbers. The second model adds what the first cannot show, the overflow
  of a double to \<^verbatim>\<open>Infinity\<close> and the \<^verbatim>\<open>NaN\<close> that follows from it; the properties
  of the scores are stated on it. Object keys
  and the trip purpose are strings, as in the source; \<^verbatim>\<open>Object.entries\<close> of an object
  literal with non-numeric keys lists the properties in the order they are written, so
  the factor table is an association list in that order. Icons are kept as the UTF-8 bytes
  of the source's emoji.
\<close>

subsection \<open>Data: emission factors and display metadata\<close>

definition EMISSION_FACTORS :: "(string \<times> real) list" where
  "EMISSION_FACTORS =
    [(''walk'', 0),
     (''cycle'', 0),
     (''bus'', 105 / 1000),
     (''metro'', 41 / 1000),
     (''bike'', 103 / 1000),
     (''car'', 192 / 1000),
     (''carpool'', (192 / 1000) / 3),
     (''evCar'', 5 / 100),
     (''flight'', 255 / 1000)]"

record meta =
  meta_label :: string
  meta_icon :: string
  meta_description :: string

definition MODE_META :: "(string \<times> meta) list" where
  "MODE_META =
    [(''walk'', \<lparr>meta_label = ''Walking'',
        meta_icon = [CHR 0xF0, CHR 0x9F, CHR 0x9A, CHR 0xB6],
        meta_description = ''Best for short distances. Zero emissions and great for health.''\<rparr>),
     (''cycle'', \<lparr>meta_label = ''Cycling'',
        meta_icon = [CHR 0xF0, CHR 0x9F, CHR 0x9A, CHR 0xB4],
        meta_description = ''Perfect for short to medium distances with near-zero emissions.''\<rparr>),
     (''bus'', \<lparr>meta_label = ''Bus'',
        meta_icon = [CHR 0xF0, CHR 0x9F, CHR 0x9A, CHR 0x8C],
        meta_description = ''Good for city travel with low emissions per passenger.''\<rparr>),
     (''metro'', \<lparr>meta_label = ''Metro / Train'',
        meta_icon = [CHR 0xF0, CHR 0x9F, CHR 0x9A, CHR 0x86],
        meta_description = ''One of the cleanest options for medium and long distances.''\<rparr>),
     (''bike'', \<lparr>meta_label = ''Motorbike'',
        meta_icon = [CHR 0xF0, CHR 0x9F, CHR 0x8F, CHR 0x8D, CHR 0xEF, CHR 0xB8, CHR 0x8F],
        meta_description = ''Better than a car for a single person, but not as green as public transport.''\<rparr>),
     (''car'', \<lparr>meta_label = ''Car (Solo Petrol)'',
        meta_icon = [CHR 0xF0, CHR 0x9F, CHR 0x9A, CHR 0x97],
        meta_description = ''High emissions when travelling alone. Use only if necessary.''\<rparr>),
     (''carpool'', \<lparr>meta_label = ''Car-pool'',
        meta_icon = [CHR 0xF0, CHR 0x9F, CHR 0x9A, CHR 0x98],
        meta_description = ''Sharing the ride cuts emissions and cost per person.''\<rparr>),
     (''evCar'', \<lparr>meta_label = ''Electric Car'',
        meta_icon = [CHR 0xF0, CHR 0x9F, CHR 0x9A, CHR 0x99],
        meta_description = ''Much lower emissions than petrol, especially when grid is clean.''\<rparr>),
     (''flight'', \<lparr>meta_label = ''Flight'',
        meta_icon = [CHR 0xE2, CHR 0x9C, CHR 0x88, CHR 0xEF, CHR 0xB8, CHR 0x8F],
        meta_description = ''Very high emissions. Try to avoid for short distances.''\<rparr>)]"

subsection \<open>Helpers\<close>

text \<open>\<^verbatim>\<open>Math.round\<close>: the nearest integer, a half rounded towards plus infinity.\<close>

definition Math_round :: "real \<Rightarrow> real" where
  "Math_round x = of_int \<lfloor>x + 1 / 2\<rfloor>"

definition roundTo :: "real \<Rightarrow> nat \<Rightarrow> real" where
  "roundTo v decimals = (let factor = 10 ^ decimals in Math_round (v * factor) / factor)"

subsection \<open>computeModes\<close>

text \<open>
  The objects pushed by the loop have no \<^verbatim>\<open>greenScore\<close> yet; the \<^verbatim>\<open>forEach\<close>
  adds it. The two stages are the record \<open>mode\<close> and its extension \<open>evaluation\<close>.
  Both are polymorphic in the type \<open>'n\<close> of the numbers they hold, so that the same
  records serve the exact model and the model with overflow further down.
\<close>

record 'n mode =
  key :: string
  label :: string
  icon :: string
  description :: string
  emissionKg :: 'n

record 'n evaluation = "'n mode" +
  greenScore :: 'n

datatype error = TypeError | StorageError

text \<open>The five \<^verbatim>\<open>continue\<close> guards at the head of the loop body, in source order.\<close>

definition skipped :: "real \<Rightarrow> string \<Rightarrow> string \<Rightarrow> bool" where
  "skipped distanceKm purpose k \<longleftrightarrow>
     (distanceKm < 1 \<and> (k = ''bus'' \<or> k = ''metro'' \<or> k = ''flight'')) \<or>
     (distanceKm < 2 \<and> k = ''flight'') \<or>
     (distanceKm < 3 \<and> k = ''metro'') \<or>
     (distanceKm < 5 \<and> k = ''flight'') \<or>
     (distanceKm < 10 \<and> purpose = ''daily'' \<and> k = ''flight'')"

text \<open>
  The \<^verbatim>\<open>for ... of entries\<close> loop. \<^verbatim>\<open>MODE_META[key].label\<close> throws a
  \<^verbatim>\<open>TypeError\<close> when the key has no metadata; that is the \<open>Inl\<close> branch.
\<close>

fun collect ::
  "real \<Rightarrow> string \<Rightarrow> (string \<times> real) list \<Rightarrow> real mode list \<Rightarrow> error + real mode list" where
  "collect distanceKm purpose [] modes = Inr modes"
| "collect distanceKm purpose ((k, factor) # entries) modes =
     (if skipped distanceKm purpose k then collect distanceKm purpose entries modes
      else (case map_of MODE_META k of
              None \<Rightarrow> Inl TypeError
            | Some m \<Rightarrow>
                collect distanceKm purpose entries
                  (modes @ [\<lparr>key = k, label = meta_label m, icon = meta_icon m,
                             description = meta_description m,
                             emissionKg = roundTo (factor * distanceKm) 3\<rparr>])))"

definition nonZero :: "real mode list \<Rightarrow> real mode list" where
  "nonZero modes = filter (\<lambda>m. emissionKg m > 0) modes"

text \<open>\<^verbatim>\<open>Math.max\<close> is only applied to the non-empty list; otherwise the default is 1.\<close>

definition maxEmission :: "real mode list \<Rightarrow> real" where
  "maxEmission modes =
     (case map emissionKg (nonZero modes) of
        [] \<Rightarrow> 1
      | e # es \<Rightarrow> fold max es e)"

definition score :: "real \<Rightarrow> real mode \<Rightarrow> real evaluation" where
  "score maxE m =
     \<lparr>key = key m, label = label m, icon = icon m, description = description m,
      emissionKg = emissionKg m,
      greenScore =
        (if emissionKg m = 0 then 100
         else (let ratio = emissionKg m / maxE;
                   sc = 100 - ratio * 80
               in max 20 (roundTo sc 0)))\<rparr>"

text \<open>
  \<^verbatim>\<open>Array.prototype.sort\<close> with a comparator is a stable sort: \<open>a\<close> goes before \<open>b\<close>
  when \<open>cmp a b < 0\<close>, and elements that compare equal keep their order. It is modelled by
  insertion from the right, which places an element in front of the ones it does not
  exceed.
\<close>

fun insert_cmp :: "('a \<Rightarrow> 'a \<Rightarrow> real) \<Rightarrow> 'a \<Rightarrow> 'a list \<Rightarrow> 'a list" where
  "insert_cmp cmp a [] = [a]"
| "insert_cmp cmp a (b # bs) =
     (if cmp a b \<le> 0 then a # b # bs else b # insert_cmp cmp a bs)"

definition array_sort :: "('a \<Rightarrow> 'a \<Rightarrow> real) \<Rightarrow> 'a list \<Rightarrow> 'a list" where
  "array_sort cmp xs = foldr (insert_cmp cmp) xs []"

definition by_emission :: "real evaluation \<Rightarrow> real evaluation \<Rightarrow> real" where
  "by_emission a b = emissionKg a - emissionKg b"

definition computeModes :: "real \<Rightarrow> string \<Rightarrow> error + real evaluation list" where
  "computeModes distanceKm purpose =
     (case collect distanceKm purpose EMISSION_FACTORS [] of
        Inl e \<Rightarrow> Inl e
      | Inr modes \<Rightarrow>
          Inr (array_sort by_emission (map (score (maxEmission modes)) modes)))"

subsection \<open>Classifiers\<close>

definition classifyScore :: "real \<Rightarrow> string \<times> string" where
  "classifyScore sc =
     (if sc \<ge> 85 then (''Excellent'', [CHR 0xF0, CHR 0x9F, CHR 0x8C, CHR 0x9F])
      else if sc \<ge> 70 then (''Good'', [CHR 0xE2, CHR 0x9C, CHR 0x85])
      else if sc \<ge> 55 then (''Ok'', [CHR 0xE2, CHR 0x9A, CHR 0x96, CHR 0xEF, CHR 0xB8, CHR 0x8F])
      else (''Could be greener'', [CHR 0xE2, CHR 0x9A, CHR 0xA0, CHR 0xEF, CHR 0xB8, CHR 0x8F]))"

definition classifyTrip :: "real \<Rightarrow> string" where
  "classifyTrip distanceKm =
     (if distanceKm \<le> 2 then ''Very short (ideal for walking/cycling)''
      else if distanceKm \<le> 8 then ''Short city trip''
      else if distanceKm \<le> 30 then ''Medium city / town trip''
      else ''Long distance trip'')"

definition purposeLabelOf :: "string \<Rightarrow> string" where
  "purposeLabelOf purpose =
     (if purpose = ''daily'' then ''Daily commute''
      else if purpose = ''casual'' then ''Casual outing''
      else if purpose = ''work'' then ''Work / Business''
      else ''Long journey'')"

subsection \<open>Recent trips in localStorage\<close>

record trip =
  trip_from :: string
  trip_to :: string
  distance :: real
  bestLabel :: string
  bestEmission :: real
  tripType :: string
  purposeLabel :: string

text \<open>
  What \<^verbatim>\<open>localStorage.getItem(STORAGE_KEY)\<close> holds, classified by what
  \<^verbatim>\<open>loadRecentTrips\<close> does with it: nothing (or the empty string), text that
  \<^verbatim>\<open>JSON.parse\<close> rejects, JSON that is not an array, or an array of records.
  \<^verbatim>\<open>getItem\<close> and \<^verbatim>\<open>setItem\<close> may throw (storage disabled, quota exceeded).
\<close>

datatype item = Missing | Unparsable | NotArray | TripArray "trip list"

record localStorage =
  recent_item :: item
  getItem_throws :: bool
  setItem_throws :: bool

definition loadRecentTrips :: "localStorage \<Rightarrow> trip list" where
  "loadRecentTrips ls =
     (if getItem_throws ls then []
      else (case recent_item ls of
              Missing \<Rightarrow> []
            | Unparsable \<Rightarrow> []
            | NotArray \<Rightarrow> []
            | TripArray data \<Rightarrow> data))"

definition saveRecentTrip :: "trip \<Rightarrow> localStorage \<Rightarrow> error + (trip list \<times> localStorage)" where
  "saveRecentTrip t ls =
     (let current = t # loadRecentTrips ls;
          trimmed = take 6 current
      in if setItem_throws ls then Inl StorageError
         else Inr (trimmed, ls\<lparr>recent_item := TripArray trimmed\<rparr>))"

text \<open>Saving a sequence of trips, one call after the other, oldest first.\<close>

fun saveAll :: "trip list \<Rightarrow> localStorage \<Rightarrow> error + (trip list \<times> localStorage)" where
  "saveAll [] ls = Inr (loadRecentTrips ls, ls)"
| "saveAll (t # ts) ls =
     (case saveRecentTrip t ls of
        Inl e \<Rightarrow> Inl e
      | Inr (saved, ls') \<Rightarrow> (if ts = [] then Inr (saved, ls') else saveAll ts ls'))"

subsection \<open>The submit handler\<close>

text \<open>
  The computation of the form's submit listener, without the rendering. The arguments are
  the trimmed \<^verbatim>\<open>from\<close> and \<^verbatim>\<open>to\<close> fields, the value of the purpose selector, and the
  result of \<^verbatim>\<open>parseFloat\<close> (\<open>None\<close> for \<^verbatim>\<open>NaN\<close>). The handler either alerts, or
  returns the evaluated modes, the new recent-trip list if one was saved, and the storage.
\<close>

datatype outcome = Alert | Shown "real evaluation list" "trip list option" localStorage

definition submit ::
  "string \<Rightarrow> string \<Rightarrow> string \<Rightarrow> real option \<Rightarrow> localStorage \<Rightarrow> error + outcome" where
  "submit fromValue toValue purposeValue parsed ls =
     (let from = (if fromValue = [] then ''Unknown'' else fromValue);
          to = (if toValue = [] then ''Unknown'' else toValue);
          purpose = (if purposeValue = [] then ''daily'' else purposeValue)
      in case parsed of
           None \<Rightarrow> Inr Alert
         | Some distanceIn \<Rightarrow>
             if distanceIn \<le> 0 then Inr Alert
             else (let distanceKm = roundTo distanceIn 2
                   in case computeModes distanceKm purpose of
                        Inl e \<Rightarrow> Inl e
                      | Inr modes \<Rightarrow>
                          (case modes of
                             [] \<Rightarrow> Inr (Shown modes None ls)
                           | best # _ \<Rightarrow>
                               (case saveRecentTrip
                                       \<lparr>trip_from = from, trip_to = to, distance = distanceKm,
                                        bestLabel = label best, bestEmission = emissionKg best,
                                        tripType = classifyTrip distanceKm,
                                        purposeLabel = purposeLabelOf purpose\<rparr> ls of
                                  Inl e \<Rightarrow> Inl e
                                | Inr (newList, ls') \<Rightarrow> Inr (Shown modes (Some newList) ls')))))"

text \<open>Observations of a result, used to display concrete runs.\<close>

definition result_keys :: "error + real evaluation list \<Rightarrow> string list" where
  "result_keys r = (case r of Inl e \<Rightarrow> [] | Inr ms \<Rightarrow> map key ms)"

definition summary :: "error + real evaluation list \<Rightarrow> (string \<times> real \<times> real) list" where
  "summary r = (case r of Inl e \<Rightarrow> [] | Inr ms \<Rightarrow> map (\<lambda>m. (key m, emissionKg m, greenScore m)) ms)"

subsection \<open>Numbers that overflow\<close>

text \<open>
  The exact model above never leaves the reals, but a JavaScript number is an IEEE-754
  double: a result whose magnitude is too large becomes \<^verbatim>\<open>Infinity\<close>, and
  \<^verbatim>\<open>Infinity / Infinity\<close> is \<^verbatim>\<open>NaN\<close>. The second model of \<^verbatim>\<open>computeModes\<close>
  keeps these values. Inside the range of doubles its arithmetic is still exact (the
  rounding of every result to 53 bits is not modelled, so a computed emission can differ
  from the program's in its last decimal, and there is one zero); at the edge it
  follows the standard: a result of magnitude at least \<open>2^1024 - 2^970\<close>, the point from
  which round-to-nearest gives infinity, overflows. The distance passed to
  \<^verbatim>\<open>computeModes\<close> is a finite number, as the input contract has it.
\<close>

datatype number = Num real | Infinity | NegInfinity | NaN

definition overflow_at :: real where
  "overflow_at = 2 ^ 1024 - 2 ^ 970"

definition to_number :: "real \<Rightarrow> number" where
  "to_number x =
     (if overflow_at \<le> x then Infinity
      else if x \<le> - overflow_at then NegInfinity
      else Num x)"

text \<open>The operators \<^verbatim>\<open>*\<close>, \<^verbatim>\<open>/\<close> and \<^verbatim>\<open>-\<close> on numbers.\<close>

fun times_num :: "number \<Rightarrow> number \<Rightarrow> number" where
  "times_num NaN y = NaN"
| "times_num x NaN = NaN"
| "times_num (Num a) (Num b) = to_number (a * b)"
| "times_num (Num a) Infinity = (if 0 < a then Infinity else if a < 0 then NegInfinity else NaN)"
| "times_num (Num a) NegInfinity = (if 0 < a then NegInfinity else if a < 0 then Infinity else NaN)"
| "times_num Infinity (Num b) = (if 0 < b then Infinity else if b < 0 then NegInfinity else NaN)"
| "times_num NegInfinity (Num b) = (if 0 < b then NegInfinity else if b < 0 then Infinity else NaN)"
| "times_num Infinity Infinity = Infinity"
| "times_num Infinity NegInfinity = NegInfinity"
| "times_num NegInfinity Infinity = NegInfinity"
| "times_num NegInfinity NegInfinity = Infinity"

fun divide_num :: "number \<Rightarrow> number \<Rightarrow> number" where
  "divide_num NaN y = NaN"
| "divide_num x NaN = NaN"
| "divide_num (Num a) (Num b) =
     (if b = 0 then (if 0 < a then Infinity else if a < 0 then NegInfinity else NaN)
      else to_number (a / b))"
| "divide_num (Num a) Infinity = Num 0"
| "divide_num (Num a) NegInfinity = Num 0"
| "divide_num Infinity (Num b) = (if 0 \<le> b then Infinity else NegInfinity)"
| "divide_num NegInfinity (Num b) = (if 0 \<le> b then NegInfinity else Infinity)"
| "divide_num Infinity Infinity = NaN"
| "divide_num Infinity NegInfinity = NaN"
| "divide_num NegInfinity Infinity = NaN"
| "divide_num NegInfinity NegInfinity = NaN"

fun minus_num :: "number \<Rightarrow> number \<Rightarrow> number" where
  "minus_num NaN y = NaN"
| "minus_num x NaN = NaN"
| "minus_num (Num a) (Num b) = to_number (a - b)"
| "minus_num (Num a) Infinity = NegInfinity"
| "minus_num (Num a) NegInfinity = Infinity"
| "minus_num Infinity (Num b) = Infinity"
| "minus_num NegInfinity (Num b) = NegInfinity"
| "minus_num Infinity Infinity = NaN"
| "minus_num Infinity NegInfinity = Infinity"
| "minus_num NegInfinity Infinity = NegInfinity"
| "minus_num NegInfinity NegInfinity = NaN"

text \<open>
  The comparisons \<^verbatim>\<open><\<close>, \<^verbatim>\<open><=\<close> and \<^verbatim>\<open>===\<close>: all are false when an operand is
  \<^verbatim>\<open>NaN\<close>. \<^verbatim>\<open>a > b\<close> is \<open>less_num b a\<close> and \<^verbatim>\<open>a >= b\<close> is \<open>less_eq_num b a\<close>.
\<close>

fun less_num :: "number \<Rightarrow> number \<Rightarrow> bool" where
  "less_num NaN y = False"
| "less_num x NaN = False"
| "less_num (Num a) (Num b) = (a < b)"
| "less_num (Num a) Infinity = True"
| "less_num (Num a) NegInfinity = False"
| "less_num Infinity y = False"
| "less_num NegInfinity (Num b) = True"
| "less_num NegInfinity Infinity = True"
| "less_num NegInfinity NegInfinity = False"

definition strict_eq_num :: "number \<Rightarrow> number \<Rightarrow> bool" where
  "strict_eq_num x y \<longleftrightarrow> x \<noteq> NaN \<and> x = y"

definition less_eq_num :: "number \<Rightarrow> number \<Rightarrow> bool" where
  "less_eq_num x y \<longleftrightarrow> less_num x y \<or> strict_eq_num x y"

fun isFinite :: "number \<Rightarrow> bool" where
  "isFinite (Num a) = True"
| "isFinite x = False"

fun Math_round_num :: "number \<Rightarrow> number" where
  "Math_round_num (Num a) = to_number (of_int \<lfloor>a + 1 / 2\<rfloor>)"
| "Math_round_num x = x"

text \<open>
  \<^verbatim>\<open>Math.max\<close> of two numbers, and of a spread list: \<^verbatim>\<open>NaN\<close> if an argument is,
  and \<^verbatim>\<open>-Infinity\<close> for no argument.
\<close>

definition Math_max2 :: "number \<Rightarrow> number \<Rightarrow> number" where
  "Math_max2 x y = (if x = NaN \<or> y = NaN then NaN else if less_num x y then y else x)"

definition Math_max_list :: "number list \<Rightarrow> number" where
  "Math_max_list xs = fold (\<lambda>x acc. Math_max2 acc x) xs NegInfinity"

definition roundTo_num :: "number \<Rightarrow> nat \<Rightarrow> number" where
  "roundTo_num v decimals =
     (let factor = to_number (10 ^ decimals)
      in divide_num (Math_round_num (times_num v factor)) factor)"

text \<open>\<^verbatim>\<open>computeModes\<close> once more, line by line, on these numbers.\<close>

fun collect_num ::
  "real \<Rightarrow> string \<Rightarrow> (string \<times> real) list \<Rightarrow> number mode list \<Rightarrow> error + number mode list" where
  "collect_num distanceKm purpose [] modes = Inr modes"
| "collect_num distanceKm purpose ((k, factor) # entries) modes =
     (if skipped distanceKm purpose k then collect_num distanceKm purpose entries modes
      else (case map_of MODE_META k of
              None \<Rightarrow> Inl TypeError
            | Some m \<Rightarrow>
                collect_num distanceKm purpose entries
                  (modes @ [\<lparr>key = k, label = meta_label m, icon = meta_icon m,
                             description = meta_description m,
                             emissionKg = roundTo_num (times_num (Num factor) (Num distanceKm)) 3\<rparr>])))"

definition nonZero_num :: "number mode list \<Rightarrow> number mode list" where
  "nonZero_num modes = filter (\<lambda>m. less_num (Num 0) (emissionKg m)) modes"

definition maxEmission_num :: "number mode list \<Rightarrow> number" where
  "maxEmission_num modes =
     (case nonZero_num modes of
        [] \<Rightarrow> Num 1
      | m # ms \<Rightarrow> Math_max_list (map emissionKg (m # ms)))"

definition score_num :: "number \<Rightarrow> number mode \<Rightarrow> number evaluation" where
  "score_num maxE m =
     \<lparr>key = key m, label = label m, icon = icon m, description = description m,
      emissionKg = emissionKg m,
      greenScore =
        (if strict_eq_num (emissionKg m) (Num 0) then Num 100
         else (let ratio = divide_num (emissionKg m) maxE;
                   sc = minus_num (Num 100) (times_num ratio (Num 80))
               in Math_max2 (Num 20) (roundTo_num sc 0)))\<rparr>"

text \<open>
  The sort with a comparator that returns a number: \<open>b\<close> goes before \<open>a\<close> only when
  \<open>cmp a b > 0\<close>; a comparator result of \<^verbatim>\<open>NaN\<close> counts as 0.
\<close>

fun insert_cmp_num :: "('a \<Rightarrow> 'a \<Rightarrow> number) \<Rightarrow> 'a \<Rightarrow> 'a list \<Rightarrow> 'a list" where
  "insert_cmp_num cmp a [] = [a]"
| "insert_cmp_num cmp a (b # bs) =
     (if less_num (Num 0) (cmp a b) then b # insert_cmp_num cmp a bs else a # b # bs)"

definition array_sort_num :: "('a \<Rightarrow> 'a \<Rightarrow> number) \<Rightarrow> 'a list \<Rightarrow> 'a list" where
  "array_sort_num cmp xs = foldr (insert_cmp_num cmp) xs []"

definition by_emission_num :: "number evaluation \<Rightarrow> number evaluation \<Rightarrow> number" where
  "by_emission_num a b = minus_num (emissionKg a) (emissionKg b)"

definition computeModes_num :: "real \<Rightarrow> string \<Rightarrow> error + number evaluation list" where
  "computeModes_num distanceKm purpose =
     (case collect_num distanceKm purpose EMISSION_FACTORS [] of
        Inl e \<Rightarrow> Inl e
      | Inr modes \<Rightarrow>
          Inr (array_sort_num by_emission_num (map (score_num (maxEmission_num modes)) modes)))"

definition summary_num :: "error + number evaluation list \<Rightarrow> (string \<times> number \<times> number) list" where
  "summary_num r =
     (case r of Inl e \<Rightarrow> [] | Inr ms \<Rightarrow> map (\<lambda>m. (key m, emissionKg m, greenScore m)) ms)"

subsection \<open>Notions used in the proofs\<close>

text \<open>The object the loop pushes for a table entry, given that the entry has metadata.\<close>

definition pushed :: "real \<Rightarrow> string \<times> real \<Rightarrow> real mode" where
  "pushed d e =
     (let m = the (map_of MODE_META (fst e))
      in \<lparr>key = fst e, label = meta_label m, icon = meta_icon m,
          description = meta_description m, emissionKg = roundTo (snd e * d) 3\<rparr>)"

definition eligible :: "real \<Rightarrow> string \<Rightarrow> real mode list" where
  "eligible d p = map (pushed d) (filter (\<lambda>e. \<not> skipped d p (fst e)) EMISSION_FACTORS)"

text \<open>The list before the sort: the eligible modes with their scores.\<close>

definition scored :: "real \<Rightarrow> string \<Rightarrow> real evaluation list" where
  "scored d p = map (score (maxEmission (eligible d p))) (eligible d p)"

text \<open>The same notions for the model with overflow, and the embedding of exact records.\<close>

definition pushed_num :: "real \<Rightarrow> string \<times> real \<Rightarrow> number mode" where
  "pushed_num d e =
     (let m = the (map_of MODE_META (fst e))
      in \<lparr>key = fst e, label = meta_label m, icon = meta_icon m,
          description = meta_description m,
          emissionKg = roundTo_num (times_num (Num (snd e)) (Num d)) 3\<rparr>)"

definition eligible_num :: "real \<Rightarrow> string \<Rightarrow> number mode list" where
  "eligible_num d p = map (pushed_num d) (filter (\<lambda>e. \<not> skipped d p (fst e)) EMISSION_FACTORS)"

definition scored_num :: "real \<Rightarrow> string \<Rightarrow> number evaluation list" where
  "scored_num d p = map (score_num (maxEmission_num (eligible_num d p))) (eligible_num d p)"

definition as_number_mode :: "real mode \<Rightarrow> number mode" where
  "as_number_mode m =
     \<lparr>key = key m, label = label m, icon = icon m, description = description m,
      emissionKg = Num (emissionKg m)\<rparr>"

definition as_number_evaluation :: "real evaluation \<Rightarrow> number evaluation" where
  "as_number_evaluation m =
     \<lparr>key = key m, label = label m, icon = icon m, description = description m,
      emissionKg = Num (emissionKg m), greenScore = Num (greenScore m)\<rparr>"

text \<open>A record as the submit handler builds it, used for concrete runs of the storage.\<close>

definition exampleTrip :: "real \<Rightarrow> trip" where
  "exampleTrip km =
     \<lparr>trip_from = ''Home'', trip_to = ''Office'', distance = km, bestLabel = ''Walking'',
      bestEmission = 0, tripType = classifyTrip km, purposeLabel = ''Work / Business''\<rparr>"

section \<open>Rounding\<close>

lemma Math_round_mono: "x \<le> y \<Longrightarrow> Math_round x \<le> Math_round y"
  unfolding Math_round_def by (simp add: floor_mono)

lemma Math_round_nonneg: "0 \<le> x \<Longrightarrow> 0 \<le> Math_round x"
  unfolding Math_round_def by simp

lemma Math_round_of_int: "Math_round (of_int n) = of_int n"
  unfolding Math_round_def by simp

lemma Math_round_Ints: "Math_round x \<in> \<int>"
  unfolding Math_round_def by simp

lemma roundTo_0: "roundTo v 0 = Math_round v"
  by (simp add: roundTo_def)

lemma roundTo_nonneg: "0 \<le> v \<Longrightarrow> 0 \<le> roundTo v n"
  by (simp add: roundTo_def Let_def Math_round_nonneg)

lemma Math_round_double: "\<bar>Math_round (2 * x) - 2 * Math_round x\<bar> \<le> 1"
proof -
  have "\<lfloor>2 * x + 1 / 2\<rfloor> - 2 * \<lfloor>x + 1 / 2\<rfloor> \<le> 1" "- 1 \<le> \<lfloor>2 * x + 1 / 2\<rfloor> - 2 * \<lfloor>x + 1 / 2\<rfloor>"
    by linarith+
  then have "\<bar>\<lfloor>2 * x + 1 / 2\<rfloor> - 2 * \<lfloor>x + 1 / 2\<rfloor>\<bar> \<le> 1"
    by linarith
  then have "\<bar>real_of_int (\<lfloor>2 * x + 1 / 2\<rfloor> - 2 * \<lfloor>x + 1 / 2\<rfloor>)\<bar> \<le> 1"
    by linarith
  then show ?thesis
    by (simp add: Math_round_def)
qed

lemma roundTo_double: "\<bar>roundTo (2 * v) 3 - 2 * roundTo v 3\<bar> \<le> 1 / 1000"
proof -
  have "\<bar>Math_round (2 * (v * 1000)) - 2 * Math_round (v * 1000)\<bar> \<le> 1"
    by (rule Math_round_double)
  then show ?thesis
    by (simp add: roundTo_def field_simps)
qed

section \<open>The loop over the factor table\<close>

lemma collect_closed_form:
  "\<forall>e \<in> set es. map_of MODE_META (fst e) \<noteq> None \<Longrightarrow>
   collect d p es acc = Inr (acc @ map (pushed d) (filter (\<lambda>e. \<not> skipped d p (fst e)) es))"
proof (induction es arbitrary: acc)
  case Nil
  show ?case by simp
next
  case (Cons e es)
  obtain k f where e: "e = (k, f)" by (cases e)
  from Cons.prems obtain m where m: "map_of MODE_META k = Some m"
    by (auto simp: e)
  from Cons.prems have rest: "\<forall>e \<in> set es. map_of MODE_META (fst e) \<noteq> None"
    by simp
  show ?case
    by (simp add: e m Cons.IH [OF rest] pushed_def)
qed

lemma meta_defined: "\<forall>e \<in> set EMISSION_FACTORS. map_of MODE_META (fst e) \<noteq> None"
  by (simp add: EMISSION_FACTORS_def MODE_META_def)

lemma collect_table: "collect d p EMISSION_FACTORS [] = Inr (eligible d p)"
  using collect_closed_form [OF meta_defined, of d p "[]"] by (simp add: eligible_def)

lemma key_pushed: "key (pushed d e) = fst e"
  by (simp add: pushed_def Let_def)

lemma emissionKg_pushed: "emissionKg (pushed d e) = roundTo (snd e * d) 3"
  by (simp add: pushed_def Let_def)

lemma keys_eligible:
  "map key (eligible d p) = filter (\<lambda>k. \<not> skipped d p k) (map fst EMISSION_FACTORS)"
  by (simp add: eligible_def filter_map comp_def key_pushed)

lemma factors_nonneg: "\<forall>e \<in> set EMISSION_FACTORS. 0 \<le> snd e"
  by (simp add: EMISSION_FACTORS_def)

lemma eligible_nonneg:
  assumes "0 \<le> d" and "m \<in> set (eligible d p)"
  shows "0 \<le> emissionKg m"
proof -
  from assms(2) obtain e where e: "e \<in> set EMISSION_FACTORS" and m: "m = pushed d e"
    by (auto simp: eligible_def)
  from e factors_nonneg have "0 \<le> snd e" by blast
  with assms(1) have "0 \<le> snd e * d" by simp
  then show ?thesis
    by (simp add: m emissionKg_pushed roundTo_nonneg)
qed

section \<open>The sort\<close>

lemma insert_cmp_insort_key:
  "insert_cmp (\<lambda>a b. f a - f b) x ys = insort_key f x ys"
  by (induction ys) auto

lemma array_sort_sort_key: "array_sort (\<lambda>a b. f a - f b) xs = sort_key f xs"
  by (induction xs) (simp_all add: array_sort_def insert_cmp_insort_key)

lemma array_sort_by_emission: "array_sort by_emission xs = sort_key emissionKg xs"
proof -
  have eq: "by_emission = (\<lambda>a b. emissionKg a - emissionKg b)"
    by (simp add: by_emission_def fun_eq_iff)
  show ?thesis
    unfolding eq by (rule array_sort_sort_key)
qed

section \<open>The score\<close>

lemma fold_max_Max: "fold max es (e::real) = Max (set (e # es))"
  by (rule Max.set_eq_fold [symmetric])

lemma maxEmission_pos: "0 < maxEmission ms"
proof (cases "map emissionKg (nonZero ms)")
  case Nil
  then show ?thesis by (simp add: maxEmission_def)
next
  case (Cons e es)
  then have "e \<in> set (map emissionKg (nonZero ms))" by simp
  then have "0 < e" by (auto simp: nonZero_def)
  moreover have "e \<le> Max (set (e # es))" by simp
  ultimately show ?thesis
    by (simp add: maxEmission_def Cons fold_max_Max del: Max_insert set_simps)
qed

lemma maxEmission_ge:
  assumes "m \<in> set ms" and "0 < emissionKg m"
  shows "emissionKg m \<le> maxEmission ms"
proof -
  from assms have mem: "emissionKg m \<in> set (map emissionKg (nonZero ms))"
    by (simp add: nonZero_def)
  then obtain e es where Cons: "map emissionKg (nonZero ms) = e # es"
    by (cases "map emissionKg (nonZero ms)") auto
  with mem have "emissionKg m \<le> Max (set (e # es))" by simp
  then show ?thesis
    by (simp add: maxEmission_def Cons fold_max_Max del: Max_insert set_simps)
qed

lemma maxEmission_attained:
  assumes "m \<in> set ms" and "0 < emissionKg m"
  shows "\<exists>m' \<in> set ms. maxEmission ms = emissionKg m'"
proof -
  from assms have mem: "emissionKg m \<in> set (map emissionKg (nonZero ms))"
    by (simp add: nonZero_def)
  then obtain e es where Cons: "map emissionKg (nonZero ms) = e # es"
    by (cases "map emissionKg (nonZero ms)") auto
  have "Max (set (e # es)) \<in> set (e # es)"
    by (rule Max_in) simp_all
  then have "maxEmission ms \<in> set (map emissionKg (nonZero ms))"
    by (simp add: maxEmission_def Cons fold_max_Max del: Max_insert set_simps)
  then show ?thesis
    by (auto simp: nonZero_def)
qed

lemma score_fields:
  "key (score M m) = key m" "label (score M m) = label m"
  "emissionKg (score M m) = emissionKg m"
  by (simp_all add: score_def)

lemma greenScore_score:
  "greenScore (score M m) = max 20 (Math_round (100 - emissionKg m / M * 80))"
proof (cases "emissionKg m = 0")
  case True
  have "Math_round 100 = 100"
    using Math_round_of_int [of 100] by simp
  with True show ?thesis by (simp add: score_def)
next
  case False
  then show ?thesis by (simp add: score_def Let_def roundTo_0)
qed

lemma greenScore_zero: "emissionKg m = 0 \<Longrightarrow> greenScore (score M m) = 100"
  by (simp add: score_def)

lemma greenScore_Ints: "greenScore (score M m) \<in> \<int>"
proof -
  have "(20::real) \<in> \<int>" by simp
  then show ?thesis
    unfolding greenScore_score max_def using Math_round_Ints by simp
qed

lemma greenScore_ge_20: "20 \<le> greenScore (score M m)"
  by (simp add: greenScore_score)

lemma greenScore_le_100:
  assumes "0 < M" and "0 \<le> emissionKg m"
  shows "greenScore (score M m) \<le> 100"
proof -
  from assms have "0 \<le> emissionKg m / M * 80" by simp
  then have "100 - emissionKg m / M * 80 \<le> 100" by simp
  then have "Math_round (100 - emissionKg m / M * 80) \<le> Math_round 100"
    by (rule Math_round_mono)
  moreover have "Math_round 100 = 100"
    using Math_round_of_int [of 100] by simp
  ultimately show ?thesis by (simp add: greenScore_score)
qed

lemma greenScore_at_max:
  assumes "0 < emissionKg m" and "M = emissionKg m"
  shows "greenScore (score M m) = 20"
proof -
  from assms have "100 - emissionKg m / M * 80 = 20" by simp
  moreover have "Math_round 20 = 20"
    using Math_round_of_int [of 20] by simp
  ultimately show ?thesis by (simp add: greenScore_score)
qed

lemma greenScore_antimono:
  assumes "0 < M" and "emissionKg a \<le> emissionKg b"
  shows "greenScore (score M b) \<le> greenScore (score M a)"
proof -
  from assms have "emissionKg a / M \<le> emissionKg b / M"
    by (simp add: divide_right_mono)
  then have "emissionKg a / M * 80 \<le> emissionKg b / M * 80"
    by (rule mult_right_mono) simp
  then have "100 - emissionKg b / M * 80 \<le> 100 - emissionKg a / M * 80" by linarith
  then have "Math_round (100 - emissionKg b / M * 80) \<le> Math_round (100 - emissionKg a / M * 80)"
    by (rule Math_round_mono)
  then show ?thesis
    unfolding greenScore_score by (rule max.mono [OF order_refl])
qed

section \<open>The result of computeModes\<close>

lemma computeModes_closed_form:
  "computeModes d p = Inr (sort_key emissionKg (scored d p))"
  by (simp add: computeModes_def collect_table array_sort_by_emission scored_def)

lemma emissions_scored: "map emissionKg (scored d p) = map emissionKg (eligible d p)"
  by (simp add: scored_def score_fields comp_def)

lemma keys_scored:
  "map key (scored d p) = filter (\<lambda>k. \<not> skipped d p k) (map fst EMISSION_FACTORS)"
  by (simp add: scored_def score_fields comp_def keys_eligible [symmetric])

lemma scored_nonneg:
  assumes "0 \<le> d" and "m \<in> set (scored d p)"
  shows "0 \<le> emissionKg m"
  using assms eligible_nonneg by (auto simp: scored_def score_fields)

lemma scored_max_ge:
  assumes "m \<in> set (scored d p)" and "0 < emissionKg m"
  shows "emissionKg m \<le> maxEmission (eligible d p)"
  using assms maxEmission_ge by (auto simp: scored_def score_fields)

lemma scored_highest:
  assumes m: "m \<in> set (scored d p)" and pos: "0 < emissionKg m"
    and top: "\<forall>m' \<in> set (scored d p). emissionKg m' \<le> emissionKg m"
  shows "maxEmission (eligible d p) = emissionKg m"
proof -
  from m obtain m0 where m0: "m0 \<in> set (eligible d p)" and eq: "emissionKg m = emissionKg m0"
    by (auto simp: scored_def score_fields)
  with pos obtain m1 where m1: "m1 \<in> set (eligible d p)"
    and mx: "maxEmission (eligible d p) = emissionKg m1"
    using maxEmission_attained [of m0 "eligible d p"] by auto
  from m1 have "score (maxEmission (eligible d p)) m1 \<in> set (scored d p)"
    by (simp add: scored_def)
  with top have "emissionKg m1 \<le> emissionKg m"
    by (fastforce simp: score_fields)
  moreover from m pos have "emissionKg m \<le> maxEmission (eligible d p)"
    by (rule scored_max_ge)
  ultimately show ?thesis using mx by simp
qed

section \<open>The applicability filter\<close>

lemma result_key_set:
  "key ` set (sort_key emissionKg (scored d p)) =
     {k \<in> set (map fst EMISSION_FACTORS). \<not> skipped d p k}"
proof -
  have "key ` set (sort_key emissionKg (scored d p)) = set (map key (scored d p))"
    by simp
  then show ?thesis
    by (simp only: keys_scored set_filter)
qed

lemma table_keys:
  "set (map fst EMISSION_FACTORS) =
     {''walk'', ''cycle'', ''bus'', ''metro'', ''bike'', ''car'', ''carpool'', ''evCar'', ''flight''}"
  by (simp add: EMISSION_FACTORS_def)

lemma never_skipped:
  "k \<in> {''walk'', ''cycle'', ''bike'', ''car'', ''carpool'', ''evCar''} \<Longrightarrow> \<not> skipped d p k"
  by (auto simp: skipped_def)

lemma skipped_flight: "skipped d p ''flight'' \<longleftrightarrow> d < 5 \<or> (d < 10 \<and> p = ''daily'')"
  by (auto simp: skipped_def)

lemma skipped_metro: "skipped d p ''metro'' \<longleftrightarrow> d < 3"
  by (auto simp: skipped_def)

lemma skipped_bus: "skipped d p ''bus'' \<longleftrightarrow> d < 1"
  by (auto simp: skipped_def)

lemma skipped_cases:
  "skipped d p k \<Longrightarrow> k = ''bus'' \<or> k = ''metro'' \<or> k = ''flight''"
  by (auto simp: skipped_def)

lemma skipped_antimono:
  assumes "d \<le> d'" and "skipped d' p k"
  shows "skipped d p k"
proof -
  from assms(2) consider "k = ''bus''" | "k = ''metro''" | "k = ''flight''"
    using skipped_cases by blast
  then show ?thesis
  proof cases
    case 1
    with assms show ?thesis by (simp add: skipped_bus)
  next
    case 2
    with assms show ?thesis by (simp add: skipped_metro)
  next
    case 3
    with assms show ?thesis by (auto simp: skipped_flight)
  qed
qed

text \<open>
  Claim C2. For every distance greater than 0 and every purpose (in particular the four
  valid ones), \<open>computeModes\<close> returns a list that is not empty, and walk, cycle,
  motorbike, car, carpool and electric car are in it: no guard of the loop skips them.
\<close>

theorem computeModes_nonempty:
  assumes "0 < d"
  shows "\<exists>ms. computeModes d p = Inr ms \<and> ms \<noteq> [] \<and>
           {''walk'', ''cycle'', ''bike'', ''car'', ''carpool'', ''evCar''} \<subseteq> key ` set ms"
proof -
  let ?ms = "sort_key emissionKg (scored d p)"
  have sub: "{''walk'', ''cycle'', ''bike'', ''car'', ''carpool'', ''evCar''} \<subseteq> key ` set ?ms"
  proof
    fix k :: string
    assume k: "k \<in> {''walk'', ''cycle'', ''bike'', ''car'', ''carpool'', ''evCar''}"
    then have "\<not> skipped d p k" by (rule never_skipped)
    moreover from k have "k \<in> set (map fst EMISSION_FACTORS)"
      unfolding table_keys by auto
    ultimately show "k \<in> key ` set ?ms"
      unfolding result_key_set by simp
  qed
  then have "''walk'' \<in> key ` set ?ms" by simp
  then obtain m where m: "m \<in> set ?ms" by blast
  have ne: "?ms \<noteq> []"
    by (metis m empty_iff list.set(1))
  have "computeModes d p = Inr ?ms" by (rule computeModes_closed_form)
  with ne sub show ?thesis by blast
qed

theorem computeModes_nonempty_witness:
  "0 < (1 / 2 :: real) \<and>
   result_keys (computeModes (1 / 2) ''daily'') =
     [''walk'', ''cycle'', ''evCar'', ''carpool'', ''bike'', ''car''] \<and>
   (\<exists>ms. computeModes (1 / 2) ''daily'' = Inr ms \<and> ms \<noteq> [] \<and>
      {''walk'', ''cycle'', ''bike'', ''car'', ''carpool'', ''evCar''} \<subseteq> key ` set ms)"
proof -
  have pos: "0 < (1 / 2 :: real)" by simp
  have run: "result_keys (computeModes (1 / 2) ''daily'') =
      [''walk'', ''cycle'', ''evCar'', ''carpool'', ''bike'', ''car'']"
    by (simp add: result_keys_def computeModes_def EMISSION_FACTORS_def MODE_META_def
        skipped_def roundTo_def Math_round_def maxEmission_def nonZero_def score_def
        array_sort_def by_emission_def)
  from pos run computeModes_nonempty [OF pos, of "''daily''"] show ?thesis
    by (intro conjI)
qed

text \<open>
  Claim C3, as amended. \<open>computeModes 15 ''long''\<close> includes the flight mode, and so does
  \<open>computeModes 15 ''daily''\<close>: the daily rule only applies below 10 km, so for a daily
  commute the flight mode is left out exactly when the distance is below 10.
\<close>

theorem flight_at_15:
  "(\<exists>ms. computeModes 15 ''long'' = Inr ms \<and> ''flight'' \<in> key ` set ms) \<and>
   (\<exists>ms. computeModes 15 ''daily'' = Inr ms \<and> ''flight'' \<in> key ` set ms) \<and>
   (\<forall>d. \<exists>ms. computeModes d ''daily'' = Inr ms \<and> (''flight'' \<in> key ` set ms \<longleftrightarrow> 10 \<le> d))"
proof -
  have flight: "''flight'' \<in> set (map fst EMISSION_FACTORS)"
    unfolding table_keys by simp
  have incl: "''flight'' \<in> key ` set (sort_key emissionKg (scored d p)) \<longleftrightarrow>
      \<not> (d < 5 \<or> (d < 10 \<and> p = ''daily''))" for d p
    unfolding result_key_set using flight by (simp add: skipped_flight)
  have a: "''flight'' \<in> key ` set (sort_key emissionKg (scored 15 ''long''))"
    unfolding incl by simp
  have b: "''flight'' \<in> key ` set (sort_key emissionKg (scored 15 ''daily''))"
    unfolding incl by simp
  have c: "''flight'' \<in> key ` set (sort_key emissionKg (scored d ''daily'')) \<longleftrightarrow> 10 \<le> d" for d
    unfolding incl by auto
  from a b c show ?thesis
    unfolding computeModes_closed_form by blast
qed

text \<open>The claim's second half, evaluated: at 15 km a daily commute is offered the flight.\<close>

theorem flight_daily_15_counterexample:
  "''flight'' \<in> set (result_keys (computeModes 15 ''daily''))"
  by (simp add: result_keys_def computeModes_def EMISSION_FACTORS_def MODE_META_def
      skipped_def roundTo_def Math_round_def maxEmission_def nonZero_def score_def
      array_sort_def by_emission_def)

text \<open>
  Claim C4, as amended. For every distance greater than 0 and every purpose the eligible
  set is a subset of the modes of the table; it is a proper subset exactly when the distance
  is below 5, or below 10 with purpose daily. From there on every mode is eligible.
\<close>

theorem eligible_subset:
  assumes "0 < d"
  shows "\<exists>ms. computeModes d p = Inr ms \<and>
           key ` set ms \<subseteq> set (map fst EMISSION_FACTORS) \<and>
           (key ` set ms \<subset> set (map fst EMISSION_FACTORS) \<longleftrightarrow> d < 5 \<or> (d < 10 \<and> p = ''daily''))"
proof -
  let ?ms = "sort_key emissionKg (scored d p)"
  let ?all = "set (map fst EMISSION_FACTORS)"
  have sub: "key ` set ?ms \<subseteq> ?all"
    unfolding result_key_set by blast
  have flight: "''flight'' \<in> ?all"
    unfolding table_keys by simp
  have strict: "key ` set ?ms \<subset> ?all \<longleftrightarrow> d < 5 \<or> (d < 10 \<and> p = ''daily'')"
  proof
    assume "key ` set ?ms \<subset> ?all"
    then obtain k where "k \<in> ?all" and "k \<notin> key ` set ?ms" by blast
    then have "skipped d p k"
      unfolding result_key_set by simp
    then consider "k = ''bus''" | "k = ''metro''" | "k = ''flight''"
      using skipped_cases by blast
    then show "d < 5 \<or> (d < 10 \<and> p = ''daily'')"
    proof cases
      case 1
      with \<open>skipped d p k\<close> show ?thesis by (simp add: skipped_bus)
    next
      case 2
      with \<open>skipped d p k\<close> show ?thesis by (simp add: skipped_metro)
    next
      case 3
      with \<open>skipped d p k\<close> show ?thesis by (simp add: skipped_flight)
    qed
  next
    assume "d < 5 \<or> (d < 10 \<and> p = ''daily'')"
    then have "skipped d p ''flight''" by (simp add: skipped_flight)
    then have "''flight'' \<notin> key ` set ?ms"
      unfolding result_key_set by simp
    with flight sub show "key ` set ?ms \<subset> ?all" by blast
  qed
  show ?thesis
  proof (intro exI conjI)
    show "computeModes d p = Inr ?ms" by (rule computeModes_closed_form)
    show "key ` set ?ms \<subseteq> ?all" by (rule sub)
    show "key ` set ?ms \<subset> ?all \<longleftrightarrow> d < 5 \<or> (d < 10 \<and> p = ''daily'')" by (rule strict)
  qed
qed

theorem eligible_subset_witness:
  "0 < (3 :: real) \<and>
   result_keys (computeModes 3 ''work'') =
     [''walk'', ''cycle'', ''metro'', ''evCar'', ''carpool'', ''bike'', ''bus'', ''car''] \<and>
   (\<exists>ms. computeModes 3 ''work'' = Inr ms \<and>
      key ` set ms \<subseteq> set (map fst EMISSION_FACTORS) \<and>
      (key ` set ms \<subset> set (map fst EMISSION_FACTORS) \<longleftrightarrow> (3 :: real) < 5 \<or> ((3 :: real) < 10 \<and> ''work'' = ''daily'')))"
proof -
  have pos: "0 < (3 :: real)" by simp
  have run: "result_keys (computeModes 3 ''work'') =
      [''walk'', ''cycle'', ''metro'', ''evCar'', ''carpool'', ''bike'', ''bus'', ''car'']"
    by (simp add: result_keys_def computeModes_def EMISSION_FACTORS_def MODE_META_def
        skipped_def roundTo_def Math_round_def maxEmission_def nonZero_def score_def
        array_sort_def by_emission_def)
  from pos run eligible_subset [OF pos, of "''work''"] show ?thesis
    by (intro conjI)
qed

text \<open>At 15 km with purpose long nothing is left out: the eligible set is the whole table.\<close>

theorem strict_subset_counterexample:
  "set (result_keys (computeModes 15 ''long'')) = set (map fst EMISSION_FACTORS)"
  by (simp add: result_keys_def computeModes_def EMISSION_FACTORS_def MODE_META_def
      skipped_def roundTo_def Math_round_def maxEmission_def nonZero_def score_def
      array_sort_def by_emission_def insert_commute)

text \<open>
  Claim C8. For a fixed purpose the filter is monotonic in the distance: for
  \<open>0 < d < d'\<close>, every mode in the result at \<open>d\<close> is in the result at \<open>d'\<close>.
\<close>

theorem filter_monotonic:
  assumes "0 < d" and "d < d'"
  shows "\<exists>ms ms'. computeModes d p = Inr ms \<and> computeModes d' p = Inr ms' \<and>
           key ` set ms \<subseteq> key ` set ms'"
proof -
  have sub: "key ` set (sort_key emissionKg (scored d p)) \<subseteq> key ` set (sort_key emissionKg (scored d' p))"
  proof
    fix k
    assume "k \<in> key ` set (sort_key emissionKg (scored d p))"
    then have k: "k \<in> set (map fst EMISSION_FACTORS)" and here: "\<not> skipped d p k"
      unfolding result_key_set by simp_all
    from assms(2) have "d \<le> d'" by simp
    with here have "\<not> skipped d' p k"
      using skipped_antimono by blast
    with k show "k \<in> key ` set (sort_key emissionKg (scored d' p))"
      unfolding result_key_set by simp
  qed
  show ?thesis
  proof (intro exI conjI)
    show "computeModes d p = Inr (sort_key emissionKg (scored d p))"
      by (rule computeModes_closed_form)
    show "computeModes d' p = Inr (sort_key emissionKg (scored d' p))"
      by (rule computeModes_closed_form)
    show "key ` set (sort_key emissionKg (scored d p)) \<subseteq> key ` set (sort_key emissionKg (scored d' p))"
      by (rule sub)
  qed
qed

theorem filter_monotonic_witness:
  "0 < (4 :: real) \<and> (4 :: real) < 6 \<and>
   result_keys (computeModes 4 ''work'') =
     [''walk'', ''cycle'', ''metro'', ''evCar'', ''carpool'', ''bike'', ''bus'', ''car''] \<and>
   result_keys (computeModes 6 ''work'') =
     [''walk'', ''cycle'', ''metro'', ''evCar'', ''carpool'', ''bike'', ''bus'', ''car'', ''flight''] \<and>
   (\<exists>ms ms'. computeModes 4 ''work'' = Inr ms \<and> computeModes 6 ''work'' = Inr ms' \<and>
      key ` set ms \<subseteq> key ` set ms')"
proof -
  have pos: "0 < (4 :: real)" and lt: "(4 :: real) < 6" by simp_all
  have run4: "result_keys (computeModes 4 ''work'') =
      [''walk'', ''cycle'', ''metro'', ''evCar'', ''carpool'', ''bike'', ''bus'', ''car'']"
    by (simp add: result_keys_def computeModes_def EMISSION_FACTORS_def MODE_META_def
        skipped_def roundTo_def Math_round_def maxEmission_def nonZero_def score_def
        array_sort_def by_emission_def)
  have run6: "result_keys (computeModes 6 ''work'') =
      [''walk'', ''cycle'', ''metro'', ''evCar'', ''carpool'', ''bike'', ''bus'', ''car'', ''flight'']"
    by (simp add: result_keys_def computeModes_def EMISSION_FACTORS_def MODE_META_def
        skipped_def roundTo_def Math_round_def maxEmission_def nonZero_def score_def
        array_sort_def by_emission_def)
  from pos lt run4 run6 filter_monotonic [OF pos lt, of "''work''"] show ?thesis
    by (intro conjI)
qed

section \<open>Numbers that overflow: basic facts\<close>

lemma overflow_bounds: "17 * 10 ^ 307 < overflow_at" "overflow_at < 18 * 10 ^ 307"
  by (simp_all add: overflow_at_def)

lemma overflow_at_int: "overflow_at = of_int (2 ^ 1024 - 2 ^ 970)"
  by (simp add: overflow_at_def)

lemma overflow_at_large: "1000000 < overflow_at"
proof -
  have "(1000000::real) < 17 * 10 ^ 307" by simp
  with overflow_bounds(1) show ?thesis by linarith
qed

lemma to_number_small: "\<bar>x\<bar> < 1000000 \<Longrightarrow> to_number x = Num x"
  using overflow_at_large by (auto simp: to_number_def)

lemma to_number_below: "\<bar>x\<bar> \<le> 17 * 10 ^ 307 \<Longrightarrow> to_number x = Num x"
  using overflow_bounds(1) by (auto simp: to_number_def)

lemma to_number_above: "18 * 10 ^ 307 \<le> x \<Longrightarrow> to_number x = Infinity"
  using overflow_bounds(2) by (auto simp: to_number_def)

lemma to_number_nonneg: "0 \<le> x \<Longrightarrow> to_number x = (if overflow_at \<le> x then Infinity else Num x)"
  using overflow_at_large by (auto simp: to_number_def)

text \<open>An emission is the exact rounded product, or \<open>Infinity\<close> when a step overflows.\<close>

lemma emission_num_cases:
  assumes "0 \<le> f" and "0 \<le> d"
  shows "roundTo_num (times_num (Num f) (Num d)) 3 = Num (roundTo (f * d) 3) \<or>
         roundTo_num (times_num (Num f) (Num d)) 3 = Infinity"
proof -
  let ?k = "real_of_int \<lfloor>f * d * 1000 + 1 / 2\<rfloor>"
  from assms have fd: "0 \<le> f * d" by simp
  then have fd1000: "0 \<le> f * d * 1000" by simp
  then have k: "0 \<le> ?k" by simp
  have thousand: "to_number (10 ^ 3) = Num 1000"
    by (simp add: to_number_small)
  show ?thesis
  proof (cases "overflow_at \<le> f * d")
    case True
    then have "to_number (f * d) = Infinity"
      using fd by (simp add: to_number_nonneg)
    then show ?thesis
      by (simp add: roundTo_num_def Let_def thousand del: power_numeral)
  next
    case small: False
    then have prod: "to_number (f * d) = Num (f * d)"
      using fd by (simp add: to_number_nonneg)
    show ?thesis
    proof (cases "overflow_at \<le> f * d * 1000")
      case True
      then have "to_number (f * d * 1000) = Infinity"
        using fd1000 by (simp add: to_number_nonneg)
      then show ?thesis
        by (simp add: roundTo_num_def Let_def thousand prod del: power_numeral)
    next
      case False
      then have scaled: "to_number (f * d * 1000) = Num (f * d * 1000)"
        using fd1000 by (simp add: to_number_nonneg)
      show ?thesis
      proof (cases "overflow_at \<le> ?k")
        case True
        then have "to_number ?k = Infinity"
          using k by (simp add: to_number_nonneg)
        then show ?thesis
          by (simp add: roundTo_num_def Let_def thousand prod scaled del: power_numeral)
      next
        case False
        then have rounded: "to_number ?k = Num ?k"
          using k by (simp add: to_number_nonneg)
        from k have "0 \<le> ?k / 1000" by simp
        moreover from k have "?k / 1000 \<le> ?k" by simp
        with False have "\<not> overflow_at \<le> ?k / 1000" by linarith
        ultimately have quot: "to_number (?k / 1000) = Num (?k / 1000)"
          by (simp add: to_number_nonneg)
        have "roundTo (f * d) 3 = ?k / 1000"
          by (simp add: roundTo_def Math_round_def)
        then show ?thesis
          by (simp add: roundTo_num_def Let_def thousand prod scaled rounded quot
              del: power_numeral)
      qed
    qed
  qed
qed

lemma emission_num_finite:
  assumes "0 \<le> f" and "0 \<le> d" and "isFinite (roundTo_num (times_num (Num f) (Num d)) 3)"
  shows "roundTo_num (times_num (Num f) (Num d)) 3 = Num (roundTo (f * d) 3)"
  using emission_num_cases [OF assms(1,2)] assms(3) by auto

lemma emission_num_in_range:
  assumes "0 \<le> f" and "0 \<le> d" and "f * d * 1000 + 1 / 2 < overflow_at"
  shows "roundTo_num (times_num (Num f) (Num d)) 3 = Num (roundTo (f * d) 3)"
proof -
  let ?k = "real_of_int \<lfloor>f * d * 1000 + 1 / 2\<rfloor>"
  from assms have fd: "0 \<le> f * d" by simp
  then have fd1000: "0 \<le> f * d * 1000" by simp
  have le: "f * d \<le> f * d * 1000" using fd by (simp add: mult.commute)
  have k: "0 \<le> ?k" using fd1000 by simp
  have kle: "?k \<le> f * d * 1000 + 1 / 2" by simp
  have thousand: "to_number (10 ^ 3) = Num 1000"
    by (simp add: to_number_small)
  from assms(3) le have prod: "to_number (f * d) = Num (f * d)"
    using fd by (simp add: to_number_nonneg)
  from assms(3) have scaled: "to_number (f * d * 1000) = Num (f * d * 1000)"
    using fd1000 by (simp add: to_number_nonneg)
  from assms(3) kle have small: "\<not> overflow_at \<le> ?k" by linarith
  then have rounded: "to_number ?k = Num ?k"
    using k by (simp add: to_number_nonneg)
  from k have "?k / 1000 \<le> ?k" by simp
  with small have "\<not> overflow_at \<le> ?k / 1000" by linarith
  moreover from k have "0 \<le> ?k / 1000" by simp
  ultimately have quot: "to_number (?k / 1000) = Num (?k / 1000)"
    by (simp add: to_number_nonneg)
  have "roundTo (f * d) 3 = ?k / 1000"
    by (simp add: roundTo_def Math_round_def)
  then show ?thesis
    by (simp add: roundTo_num_def Let_def thousand prod scaled rounded quot del: power_numeral)
qed

section \<open>computeModes on numbers that overflow\<close>

lemma collect_num_closed_form:
  "\<forall>e \<in> set es. map_of MODE_META (fst e) \<noteq> None \<Longrightarrow>
   collect_num d p es acc =
     Inr (acc @ map (pushed_num d) (filter (\<lambda>e. \<not> skipped d p (fst e)) es))"
proof (induction es arbitrary: acc)
  case Nil
  show ?case by simp
next
  case (Cons e es)
  obtain k f where e: "e = (k, f)" by (cases e)
  from Cons.prems obtain m where m: "map_of MODE_META k = Some m"
    by (auto simp: e)
  from Cons.prems have rest: "\<forall>e \<in> set es. map_of MODE_META (fst e) \<noteq> None"
    by simp
  show ?case
    by (simp add: e m Cons.IH [OF rest] pushed_num_def del: times_num.simps)
qed

lemma collect_num_table: "collect_num d p EMISSION_FACTORS [] = Inr (eligible_num d p)"
  using collect_num_closed_form [OF meta_defined, of d p "[]"] by (simp add: eligible_num_def)

lemma set_insert_cmp_num: "set (insert_cmp_num cmp a bs) = insert a (set bs)"
  by (induction bs) auto

lemma set_array_sort_num: "set (array_sort_num cmp xs) = set xs"
  by (induction xs) (simp_all add: array_sort_num_def set_insert_cmp_num)

lemma computeModes_num_closed_form:
  "computeModes_num d p = Inr (array_sort_num by_emission_num (scored_num d p))"
  by (simp add: computeModes_num_def collect_num_table scored_num_def)

lemma score_num_fields:
  "key (score_num M m) = key m" "emissionKg (score_num M m) = emissionKg m"
  by (simp_all add: score_num_def)

lemma score_num_zero:
  "strict_eq_num (emissionKg m) (Num 0) \<Longrightarrow> greenScore (score_num M m) = Num 100"
  by (simp add: score_num_def)

lemma pushed_num_emission:
  "emissionKg (pushed_num d e) = roundTo_num (times_num (Num (snd e)) (Num d)) 3"
  by (simp add: pushed_num_def Let_def del: times_num.simps)

lemma pushed_num_exact:
  assumes "emissionKg (pushed_num d e) = Num (roundTo (snd e * d) 3)"
  shows "pushed_num d e = as_number_mode (pushed d e)"
  using assms by (simp add: pushed_num_def pushed_def as_number_mode_def Let_def del: times_num.simps)

lemma eligible_num_exact:
  assumes d: "0 \<le> d" and fin: "\<forall>m \<in> set (eligible_num d p). isFinite (emissionKg m)"
  shows "eligible_num d p = map as_number_mode (eligible d p)"
proof -
  have "pushed_num d e = as_number_mode (pushed d e)"
    if e: "e \<in> set (filter (\<lambda>e. \<not> skipped d p (fst e)) EMISSION_FACTORS)" for e
  proof -
    from e have "pushed_num d e \<in> set (eligible_num d p)"
      by (simp add: eligible_num_def)
    with fin have finite: "isFinite (roundTo_num (times_num (Num (snd e)) (Num d)) 3)"
      by (simp only: pushed_num_emission [symmetric])
    from e factors_nonneg have nonneg: "0 \<le> snd e" by simp
    from nonneg d finite
    have "roundTo_num (times_num (Num (snd e)) (Num d)) 3 = Num (roundTo (snd e * d) 3)"
      by (rule emission_num_finite)
    then have "emissionKg (pushed_num d e) = Num (roundTo (snd e * d) 3)"
      by (simp only: pushed_num_emission)
    then show ?thesis
      by (rule pushed_num_exact)
  qed
  then show ?thesis
    by (simp add: eligible_num_def eligible_def)
qed

lemma fold_Math_max2:
  "fold (\<lambda>x acc. Math_max2 acc x) (map Num es) (Num a) = Num (fold max es a)"
proof (induction es arbitrary: a)
  case Nil
  show ?case by simp
next
  case (Cons e es)
  have "Math_max2 (Num a) (Num e) = Num (max e a)"
    by (simp add: Math_max2_def max_def)
  then show ?case
    by (simp add: Cons.IH)
qed

lemma Math_max_list_Num: "Math_max_list (map Num (e # es)) = Num (fold max es e)"
proof -
  have "Math_max2 NegInfinity (Num e) = Num e"
    by (simp add: Math_max2_def)
  then show ?thesis
    by (simp add: Math_max_list_def fold_Math_max2)
qed

lemma emissionKg_as_number:
  "emissionKg (as_number_mode m) = Num (emissionKg m)"
  "emissionKg (as_number_evaluation v) = Num (emissionKg v)"
  "greenScore (as_number_evaluation v) = Num (greenScore v)"
  "key (as_number_evaluation v) = key v"
  by (simp_all add: as_number_mode_def as_number_evaluation_def)

lemma maxEmission_num_exact:
  "maxEmission_num (map as_number_mode ms) = Num (maxEmission ms)"
proof -
  have nz: "nonZero_num (map as_number_mode ms) = map as_number_mode (nonZero ms)"
    by (simp add: nonZero_num_def nonZero_def filter_map comp_def emissionKg_as_number)
  have em: "map emissionKg (map as_number_mode xs) = map Num (map emissionKg xs)" for xs
    by (simp add: comp_def emissionKg_as_number)
  show ?thesis
  proof (cases "nonZero ms")
    case Nil
    then show ?thesis
      by (simp add: maxEmission_num_def maxEmission_def nz)
  next
    case (Cons m rest)
    have "maxEmission_num (map as_number_mode ms) =
        Math_max_list (map emissionKg (map as_number_mode (m # rest)))"
      by (simp add: maxEmission_num_def nz Cons)
    also have "\<dots> = Math_max_list (map Num (emissionKg m # map emissionKg rest))"
      by (simp add: comp_def emissionKg_as_number)
    also have "\<dots> = Num (fold max (map emissionKg rest) (emissionKg m))"
      by (rule Math_max_list_Num)
    also have "\<dots> = Num (maxEmission ms)"
      by (simp add: maxEmission_def Cons)
    finally show ?thesis .
  qed
qed

lemma to_number_hundred: "\<bar>x\<bar> \<le> 100 \<Longrightarrow> to_number x = Num x"
  by (rule to_number_small) simp

lemma score_num_exact:
  assumes M: "0 < M" and lo: "0 \<le> emissionKg m" and hi: "emissionKg m \<le> M"
  shows "score_num (Num M) (as_number_mode m) = as_number_evaluation (score M m)"
proof (cases "emissionKg m = 0")
  case True
  then show ?thesis
    by (simp add: score_num_def score_def as_number_mode_def as_number_evaluation_def
        strict_eq_num_def)
next
  case False
  define r where "r = emissionKg m / M"
  define s where "s = 100 - r * 80"
  define k where "k = real_of_int \<lfloor>s + 1 / 2\<rfloor>"
  from M lo hi have r: "0 \<le> r" "r \<le> 1" by (simp_all add: r_def)
  then have s: "20 \<le> s" "s \<le> 100" by (simp_all add: s_def)
  from s have "20 \<le> \<lfloor>s + 1 / 2\<rfloor>" "\<lfloor>s + 1 / 2\<rfloor> \<le> 100"
    by (simp_all add: le_floor_iff floor_le_iff)
  then have k: "20 \<le> k" "k \<le> 100" by (simp_all add: k_def)
  from M have M0: "M \<noteq> 0" by simp
  have ratio: "divide_num (Num (emissionKg m)) (Num M) = Num r"
  proof -
    have "divide_num (Num (emissionKg m)) (Num M) = to_number r"
      using M0 by (simp add: r_def)
    also have "\<dots> = Num r"
      using r by (simp add: to_number_hundred)
    finally show ?thesis .
  qed
  have mul: "times_num (Num r) (Num 80) = Num (r * 80)"
    using r by (simp add: to_number_hundred)
  have sub: "minus_num (Num 100) (Num (r * 80)) = Num s"
  proof -
    have "minus_num (Num 100) (Num (r * 80)) = to_number s"
      by (simp add: s_def)
    also have "\<dots> = Num s"
      using s by (simp add: to_number_hundred)
    finally show ?thesis .
  qed
  have one: "to_number (10 ^ 0) = Num 1"
    by (simp add: to_number_hundred)
  have s1: "times_num (Num s) (Num 1) = Num s"
    using s by (simp add: to_number_hundred)
  have rnd: "Math_round_num (Num s) = Num k"
  proof -
    have "Math_round_num (Num s) = to_number k"
      by (simp add: k_def)
    also have "\<dots> = Num k"
      using k by (simp add: to_number_hundred)
    finally show ?thesis .
  qed
  have quot: "divide_num (Num k) (Num 1) = Num k"
    using k by (simp add: to_number_hundred)
  have round_num: "roundTo_num (Num s) 0 = Num k"
    unfolding roundTo_num_def Let_def one s1 rnd quot ..
  have mx: "Math_max2 (Num 20) (Num k) = Num (max 20 k)"
    by (simp add: Math_max2_def max_def)
  have "greenScore (score_num (Num M) (as_number_mode m)) =
      Math_max2 (Num 20)
        (roundTo_num (minus_num (Num 100)
           (times_num (divide_num (Num (emissionKg m)) (Num M)) (Num 80))) 0)"
    using False
    by (simp add: score_num_def emissionKg_as_number strict_eq_num_def Let_def
        del: times_num.simps divide_num.simps minus_num.simps)
  then have num: "greenScore (score_num (Num M) (as_number_mode m)) = Num (max 20 k)"
    by (simp only: ratio mul sub round_num mx)
  have "roundTo (100 - emissionKg m / M * 80) 0 = k"
    by (simp add: roundTo_def Math_round_def k_def s_def r_def)
  then have exact: "greenScore (score M m) = max 20 k"
    using False by (simp add: score_def Let_def)
  have "score_num (Num M) (as_number_mode m) =
      \<lparr>key = key m, label = label m, icon = icon m, description = description m,
       emissionKg = Num (emissionKg m),
       greenScore = greenScore (score_num (Num M) (as_number_mode m))\<rparr>"
    by (simp add: score_num_def as_number_mode_def)
  moreover have "as_number_evaluation (score M m) =
      \<lparr>key = key m, label = label m, icon = icon m, description = description m,
       emissionKg = Num (emissionKg m), greenScore = Num (greenScore (score M m))\<rparr>"
    by (simp add: as_number_evaluation_def score_def)
  ultimately show ?thesis
    by (simp only: num exact)
qed

lemma scored_num_exact:
  assumes d: "0 \<le> d" and fin: "\<forall>m \<in> set (eligible_num d p). isFinite (emissionKg m)"
  shows "scored_num d p = map as_number_evaluation (scored d p)"
proof -
  let ?M = "maxEmission (eligible d p)"
  have el: "eligible_num d p = map as_number_mode (eligible d p)"
    using d fin by (rule eligible_num_exact)
  have mx: "maxEmission_num (eligible_num d p) = Num ?M"
    unfolding el by (rule maxEmission_num_exact)
  have "score_num (Num ?M) (as_number_mode m) = as_number_evaluation (score ?M m)"
    if m: "m \<in> set (eligible d p)" for m
  proof (rule score_num_exact)
    show "0 < ?M" by (rule maxEmission_pos)
    from d m show lo: "0 \<le> emissionKg m" by (rule eligible_nonneg)
    show "emissionKg m \<le> ?M"
    proof (cases "0 < emissionKg m")
      case True
      with m show ?thesis by (rule maxEmission_ge)
    next
      case False
      with lo have "emissionKg m = 0" by simp
      then show ?thesis using maxEmission_pos [of "eligible d p"] by simp
    qed
  qed
  then show ?thesis
    unfolding scored_num_def mx scored_def by (simp add: el)
qed

lemma emissions_scored_num:
  "emissionKg ` set (scored_num d p) = emissionKg ` set (eligible_num d p)"
  by (simp add: scored_num_def image_image score_num_fields)

section \<open>Green scores\<close>

lemma result_member:
  assumes "m \<in> set (sort_key emissionKg (scored d p))"
  obtains m0 where "m0 \<in> set (eligible d p)" and "m = score (maxEmission (eligible d p)) m0"
  using assms by (auto simp: scored_def)

text \<open>The scores of the exact model.\<close>

lemma scored_range:
  assumes "0 \<le> d" and "m \<in> set (scored d p)"
  shows "greenScore m \<in> \<int>" and "20 \<le> greenScore m" and "greenScore m \<le> 100"
proof -
  let ?M = "maxEmission (eligible d p)"
  from assms(2) obtain m0 where m0: "m0 \<in> set (eligible d p)" and eq: "m = score ?M m0"
    by (auto simp: scored_def)
  from assms(1) m0 have nonneg: "0 \<le> emissionKg m0" by (rule eligible_nonneg)
  have M: "0 < ?M" by (rule maxEmission_pos)
  show "greenScore m \<in> \<int>" unfolding eq by (rule greenScore_Ints)
  show "20 \<le> greenScore m" unfolding eq by (rule greenScore_ge_20)
  show "greenScore m \<le> 100" unfolding eq using M nonneg by (rule greenScore_le_100)
qed

lemma scored_top:
  assumes m: "m \<in> set (scored d p)" and pos: "0 < emissionKg m"
    and top: "\<forall>m' \<in> set (scored d p). emissionKg m' \<le> emissionKg m"
  shows "greenScore m = 20"
proof -
  let ?M = "maxEmission (eligible d p)"
  from m obtain m0 where eq: "m = score ?M m0"
    by (auto simp: scored_def)
  have e: "emissionKg m = emissionKg m0" by (simp add: eq score_fields)
  from m pos top have "?M = emissionKg m" by (rule scored_highest)
  then have "?M = emissionKg m0" by (simp add: e)
  moreover from pos have "0 < emissionKg m0" by (simp add: e)
  ultimately show ?thesis
    unfolding eq by (simp add: greenScore_at_max)
qed

lemma scored_antimono:
  assumes a: "a \<in> set (scored d p)" and b: "b \<in> set (scored d p)"
    and le: "emissionKg a \<le> emissionKg b"
  shows "greenScore b \<le> greenScore a"
proof -
  let ?M = "maxEmission (eligible d p)"
  have M: "0 < ?M" by (rule maxEmission_pos)
  from a obtain a0 where a0: "a = score ?M a0" by (auto simp: scored_def)
  from b obtain b0 where b0: "b = score ?M b0" by (auto simp: scored_def)
  from le have "emissionKg a0 \<le> emissionKg b0"
    by (simp add: a0 b0 score_fields)
  with M show ?thesis
    unfolding a0 b0 by (rule greenScore_antimono)
qed

text \<open>The scores of the model with overflow, when no emission overflowed.\<close>

lemma less_eq_num_Num: "less_eq_num (Num a) (Num b) \<longleftrightarrow> a \<le> b"
  by (auto simp: less_eq_num_def strict_eq_num_def)

lemma finite_result_exact:
  assumes d: "0 \<le> d"
    and fin: "\<forall>m \<in> set (array_sort_num by_emission_num (scored_num d p)). isFinite (emissionKg m)"
  shows "set (array_sort_num by_emission_num (scored_num d p)) =
           as_number_evaluation ` set (scored d p)"
proof -
  from fin have "\<forall>x \<in> emissionKg ` set (scored_num d p). isFinite x"
    by (simp add: set_array_sort_num)
  then have "\<forall>m \<in> set (eligible_num d p). isFinite (emissionKg m)"
    by (simp only: emissions_scored_num) simp
  with d have "scored_num d p = map as_number_evaluation (scored d p)"
    by (rule scored_num_exact)
  then show ?thesis
    by (simp add: set_array_sort_num)
qed

lemma factors_le: "\<forall>e \<in> set EMISSION_FACTORS. snd e \<le> 255 / 1000"
  by (simp add: EMISSION_FACTORS_def)

lemma finite_up_to:
  assumes d: "0 \<le> d" and far: "d \<le> 10 ^ 305"
  shows "\<forall>m \<in> set (array_sort_num by_emission_num (scored_num d p)). isFinite (emissionKg m)"
proof -
  have "isFinite (emissionKg (pushed_num d e))" if e: "e \<in> set EMISSION_FACTORS" for e
  proof -
    from e factors_nonneg have lo: "0 \<le> snd e" by blast
    from e factors_le have hi: "snd e \<le> 255 / 1000" by blast
    from hi d have "snd e * d \<le> 255 / 1000 * d" by (rule mult_right_mono)
    then have "snd e * d * 1000 \<le> 255 * d" by linarith
    moreover from far have "255 * d \<le> 255 * 10 ^ 305" by simp
    moreover have "(255::real) * 10 ^ 305 + 1 / 2 < 17 * 10 ^ 307" by simp
    ultimately have "snd e * d * 1000 + 1 / 2 < overflow_at"
      using overflow_bounds(1) by linarith
    with lo d have "roundTo_num (times_num (Num (snd e)) (Num d)) 3 = Num (roundTo (snd e * d) 3)"
      by (rule emission_num_in_range)
    then show ?thesis
      by (simp only: pushed_num_emission isFinite.simps)
  qed
  then have "\<forall>m \<in> set (eligible_num d p). isFinite (emissionKg m)"
    by (auto simp: eligible_num_def)
  then have "\<forall>x \<in> emissionKg ` set (scored_num d p). isFinite x"
    by (simp only: emissions_scored_num) simp
  then show ?thesis
    by (simp add: set_array_sort_num)
qed

text \<open>
  Up to \<open>10^305\<close> km the two models return the same list: the model with overflow gives
  the result of the exact model, number for number.
\<close>

lemma less_num_to_number: "less_num (Num 0) (to_number x) \<longleftrightarrow> 0 < x"
  using overflow_at_large by (auto simp: to_number_def)

lemma insert_cmp_num_exact:
  "insert_cmp_num by_emission_num (as_number_evaluation v) (map as_number_evaluation vs) =
     map as_number_evaluation (insort_key emissionKg v vs)"
proof (induction vs)
  case Nil
  show ?case by simp
next
  case (Cons w ws)
  have "less_num (Num 0) (by_emission_num (as_number_evaluation v) (as_number_evaluation w)) \<longleftrightarrow>
      \<not> emissionKg v \<le> emissionKg w"
    by (simp add: by_emission_num_def emissionKg_as_number less_num_to_number not_le)
  then show ?case
    by (simp add: Cons.IH)
qed

lemma array_sort_num_exact:
  "array_sort_num by_emission_num (map as_number_evaluation vs) =
     map as_number_evaluation (sort_key emissionKg vs)"
proof (induction vs)
  case Nil
  show ?case by (simp add: array_sort_num_def)
next
  case (Cons v vs)
  then have "foldr (insert_cmp_num by_emission_num) (map as_number_evaluation vs) [] =
      map as_number_evaluation (sort_key emissionKg vs)"
    by (simp add: array_sort_num_def)
  then show ?case
    by (simp add: array_sort_num_def insert_cmp_num_exact)
qed

lemma computeModes_num_exact:
  assumes d: "0 \<le> d" and far: "d \<le> 10 ^ 305"
  shows "computeModes_num d p = map_sum id (map as_number_evaluation) (computeModes d p)"
proof -
  from d far
  have "\<forall>m \<in> set (array_sort_num by_emission_num (scored_num d p)). isFinite (emissionKg m)"
    by (rule finite_up_to)
  then have "\<forall>x \<in> emissionKg ` set (scored_num d p). isFinite x"
    by (simp add: set_array_sort_num)
  then have "\<forall>m \<in> set (eligible_num d p). isFinite (emissionKg m)"
    by (simp only: emissions_scored_num) simp
  with d have "scored_num d p = map as_number_evaluation (scored d p)"
    by (rule scored_num_exact)
  then show ?thesis
    by (simp add: computeModes_num_closed_form computeModes_closed_form array_sort_num_exact)
qed

text \<open>
  Claim C1, as amended. For a distance greater than 0 and any purpose, a mode of the
  result with \<open>emissionKg = 0\<close> has \<open>greenScore\<close> 100. When every \<open>emissionKg\<close> of the
  result is finite, which is the case at least up to a distance of \<open>10^305\<close> km, every
  \<open>greenScore\<close> is an integer between 20 and 100, and the highest-emitting mode has score
  exactly 20 provided its \<open>emissionKg\<close> is positive.
\<close>

theorem greenScore_range:
  assumes "0 < d"
  shows "\<exists>ms. computeModes_num d p = Inr ms \<and>
           (\<forall>m \<in> set ms. strict_eq_num (emissionKg m) (Num 0) \<longrightarrow> greenScore m = Num 100) \<and>
           ((\<forall>m \<in> set ms. isFinite (emissionKg m)) \<longrightarrow>
              (\<forall>m \<in> set ms. \<exists>s. greenScore m = Num s \<and> s \<in> \<int> \<and> 20 \<le> s \<and> s \<le> 100 \<and>
                 (less_num (Num 0) (emissionKg m) \<and>
                  (\<forall>m' \<in> set ms. less_eq_num (emissionKg m') (emissionKg m)) \<longrightarrow> s = 20))) \<and>
           (d \<le> 10 ^ 305 \<longrightarrow> (\<forall>m \<in> set ms. isFinite (emissionKg m)))"
proof -
  let ?ms = "array_sort_num by_emission_num (scored_num d p)"
  from assms have d: "0 \<le> d" by simp
  have zero: "\<forall>m \<in> set ?ms. strict_eq_num (emissionKg m) (Num 0) \<longrightarrow> greenScore m = Num 100"
    by (auto simp: set_array_sort_num scored_num_def score_num_fields score_num_zero)
  have range: "\<forall>m \<in> set ?ms. \<exists>s. greenScore m = Num s \<and> s \<in> \<int> \<and> 20 \<le> s \<and> s \<le> 100 \<and>
      (less_num (Num 0) (emissionKg m) \<and>
       (\<forall>m' \<in> set ?ms. less_eq_num (emissionKg m') (emissionKg m)) \<longrightarrow> s = 20)"
    if fin: "\<forall>m \<in> set ?ms. isFinite (emissionKg m)"
  proof
    fix m
    assume m: "m \<in> set ?ms"
    from d fin have ex: "set ?ms = as_number_evaluation ` set (scored d p)"
      by (rule finite_result_exact)
    with m obtain v where v: "v \<in> set (scored d p)" and eq: "m = as_number_evaluation v"
      by auto
    have g: "greenScore m = Num (greenScore v)"
      by (simp add: eq emissionKg_as_number)
    have e: "emissionKg m = Num (emissionKg v)"
      by (simp add: eq emissionKg_as_number)
    from d v have r: "greenScore v \<in> \<int>" "20 \<le> greenScore v" "greenScore v \<le> 100"
      by (rule scored_range)+
    have top: "greenScore v = 20"
      if pos: "less_num (Num 0) (emissionKg m)"
        and all: "\<forall>m' \<in> set ?ms. less_eq_num (emissionKg m') (emissionKg m)"
    proof -
      from pos have "0 < emissionKg v" by (simp add: e)
      moreover have "\<forall>v' \<in> set (scored d p). emissionKg v' \<le> emissionKg v"
      proof
        fix v'
        assume "v' \<in> set (scored d p)"
        then have "as_number_evaluation v' \<in> set ?ms" by (simp only: ex) simp
        with all have "less_eq_num (emissionKg (as_number_evaluation v')) (emissionKg m)"
          by blast
        then show "emissionKg v' \<le> emissionKg v"
          by (simp add: e emissionKg_as_number less_eq_num_Num)
      qed
      ultimately show ?thesis using v by (intro scored_top)
    qed
    from g r top
    show "\<exists>s. greenScore m = Num s \<and> s \<in> \<int> \<and> 20 \<le> s \<and> s \<le> 100 \<and>
        (less_num (Num 0) (emissionKg m) \<and>
         (\<forall>m' \<in> set ?ms. less_eq_num (emissionKg m') (emissionKg m)) \<longrightarrow> s = 20)"
      by blast
  qed
  have upto: "\<forall>m \<in> set ?ms. isFinite (emissionKg m)" if "d \<le> 10 ^ 305"
    using d that by (rule finite_up_to)
  show ?thesis
  proof (intro exI conjI)
    show "computeModes_num d p = Inr ?ms" by (rule computeModes_num_closed_form)
    show "\<forall>m \<in> set ?ms. strict_eq_num (emissionKg m) (Num 0) \<longrightarrow> greenScore m = Num 100"
      by (rule zero)
    show "(\<forall>m \<in> set ?ms. isFinite (emissionKg m)) \<longrightarrow>
        (\<forall>m \<in> set ?ms. \<exists>s. greenScore m = Num s \<and> s \<in> \<int> \<and> 20 \<le> s \<and> s \<le> 100 \<and>
           (less_num (Num 0) (emissionKg m) \<and>
            (\<forall>m' \<in> set ?ms. less_eq_num (emissionKg m') (emissionKg m)) \<longrightarrow> s = 20))"
      using range by blast
    show "d \<le> 10 ^ 305 \<longrightarrow> (\<forall>m \<in> set ?ms. isFinite (emissionKg m))"
      using upto by blast
  qed
qed

theorem greenScore_range_witness:
  "0 < (10 :: real) \<and> (10 :: real) \<le> 10 ^ 305 \<and>
   summary_num (computeModes_num 10 ''work'') =
     [(''walk'', Num 0, Num 100), (''cycle'', Num 0, Num 100),
      (''metro'', Num (41 / 100), Num 87), (''evCar'', Num (1 / 2), Num 84),
      (''carpool'', Num (16 / 25), Num 80), (''bike'', Num (103 / 100), Num 68),
      (''bus'', Num (21 / 20), Num 67), (''car'', Num (48 / 25), Num 40),
      (''flight'', Num (51 / 20), Num 20)] \<and>
   (\<exists>ms. computeModes_num 10 ''work'' = Inr ms \<and>
      (\<forall>m \<in> set ms. strict_eq_num (emissionKg m) (Num 0) \<longrightarrow> greenScore m = Num 100) \<and>
      (\<forall>m \<in> set ms. isFinite (emissionKg m)) \<and>
      (\<forall>m \<in> set ms. \<exists>s. greenScore m = Num s \<and> s \<in> \<int> \<and> 20 \<le> s \<and> s \<le> 100 \<and>
         (less_num (Num 0) (emissionKg m) \<and>
          (\<forall>m' \<in> set ms. less_eq_num (emissionKg m') (emissionKg m)) \<longrightarrow> s = 20)))"
proof -
  have pos: "0 < (10 :: real)" by simp
  have near: "(10 :: real) \<le> 10 ^ 305"
    using power_increasing [of 1 305 "10 :: real"] by simp
  have run: "summary_num (computeModes_num 10 ''work'') =
     [(''walk'', Num 0, Num 100), (''cycle'', Num 0, Num 100),
      (''metro'', Num (41 / 100), Num 87), (''evCar'', Num (1 / 2), Num 84),
      (''carpool'', Num (16 / 25), Num 80), (''bike'', Num (103 / 100), Num 68),
      (''bus'', Num (21 / 20), Num 67), (''car'', Num (48 / 25), Num 40),
      (''flight'', Num (51 / 20), Num 20)]"
    by (simp add: summary_num_def computeModes_num_def EMISSION_FACTORS_def MODE_META_def
        skipped_def roundTo_num_def to_number_small maxEmission_num_def nonZero_num_def
        score_num_def array_sort_num_def by_emission_num_def Math_max_list_def Math_max2_def
        strict_eq_num_def Let_def)
  from greenScore_range [OF pos, of "''work''"] near
  have "\<exists>ms. computeModes_num 10 ''work'' = Inr ms \<and>
      (\<forall>m \<in> set ms. strict_eq_num (emissionKg m) (Num 0) \<longrightarrow> greenScore m = Num 100) \<and>
      (\<forall>m \<in> set ms. isFinite (emissionKg m)) \<and>
      (\<forall>m \<in> set ms. \<exists>s. greenScore m = Num s \<and> s \<in> \<int> \<and> 20 \<le> s \<and> s \<le> 100 \<and>
         (less_num (Num 0) (emissionKg m) \<and>
          (\<forall>m' \<in> set ms. less_eq_num (emissionKg m') (emissionKg m)) \<longrightarrow> s = 20))"
    by blast
  with pos near run show ?thesis by (intro conjI)
qed

text \<open>The run at \<open>7.1 * 10^305\<close> km, where the flight's emission overflows.\<close>

lemma flight_overflows:
  "roundTo_num (times_num (Num (255 / 1000)) (Num (71 * 10 ^ 304))) 3 = Infinity"
  by (simp add: roundTo_num_def to_number_below to_number_above)

lemma car_stays_finite:
  "roundTo_num (times_num (Num (192 / 1000)) (Num (71 * 10 ^ 304))) 3 = Num (13632 * 10 ^ 301)"
  by (simp add: roundTo_num_def to_number_below to_number_above)

lemma far_not_skipped: "\<not> skipped (71 * 10 ^ 304) p k"
proof -
  have "(1::real) \<le> 10 ^ 304" by (rule one_le_power) simp
  then have "(10::real) \<le> 71 * 10 ^ 304" by linarith
  then show ?thesis
    unfolding skipped_def by linarith
qed

lemma eligible_num_never_NaN:
  assumes "0 \<le> d" and "m \<in> set (eligible_num d p)"
  shows "emissionKg m \<noteq> NaN"
proof -
  from assms(2) obtain e where e: "e \<in> set EMISSION_FACTORS" and m: "m = pushed_num d e"
    by (auto simp: eligible_num_def)
  from e factors_nonneg have "0 \<le> snd e" by blast
  from emission_num_cases [OF this assms(1)] show ?thesis
    unfolding m pushed_num_emission by auto
qed

lemma fold_Math_max2_Infinity:
  assumes "NaN \<notin> set xs" and "acc \<noteq> NaN" and "acc = Infinity \<or> Infinity \<in> set xs"
  shows "fold (\<lambda>x acc. Math_max2 acc x) xs acc = Infinity"
  using assms
proof (induction xs arbitrary: acc)
  case Nil
  then show ?case by simp
next
  case (Cons x xs)
  from Cons.prems have x: "x \<noteq> NaN" and rest: "NaN \<notin> set xs" by auto
  from x Cons.prems(2) have next_ok: "Math_max2 acc x \<noteq> NaN"
    by (auto simp: Math_max2_def)
  have "Math_max2 acc x = Infinity \<or> Infinity \<in> set xs"
  proof (cases "acc = Infinity")
    case True
    with x show ?thesis by (cases x) (simp_all add: Math_max2_def)
  next
    case False
    with Cons.prems(3) have "x = Infinity \<or> Infinity \<in> set xs" by auto
    then show ?thesis
    proof
      assume "x = Infinity"
      with False Cons.prems(2) have "Math_max2 acc x = Infinity"
        by (cases acc) (simp_all add: Math_max2_def)
      then show ?thesis by simp
    next
      assume "Infinity \<in> set xs"
      then show ?thesis by simp
    qed
  qed
  with rest next_ok have "fold (\<lambda>x acc. Math_max2 acc x) xs (Math_max2 acc x) = Infinity"
    by (rule Cons.IH)
  then show ?case by simp
qed

lemma maxEmission_num_Infinity:
  assumes inf: "m \<in> set ms" "emissionKg m = Infinity"
    and nan: "\<forall>m \<in> set ms. emissionKg m \<noteq> NaN"
  shows "maxEmission_num ms = Infinity"
proof -
  from inf have mem: "m \<in> set (nonZero_num ms)"
    by (simp add: nonZero_num_def)
  then obtain n ns where Cons: "nonZero_num ms = n # ns"
    by (cases "nonZero_num ms") auto
  let ?xs = "map emissionKg (n # ns)"
  from mem inf(2) have "Infinity \<in> set ?xs"
    by (metis Cons image_eqI list.set_map)
  moreover from nan have "NaN \<notin> set ?xs"
    unfolding Cons [symmetric] by (auto simp: nonZero_num_def)
  ultimately have "Math_max_list ?xs = Infinity"
    unfolding Math_max_list_def by (intro fold_Math_max2_Infinity) simp_all
  then show ?thesis
    by (simp add: maxEmission_num_def Cons)
qed

lemma score_num_under_Infinity:
  "emissionKg m = Infinity \<Longrightarrow> greenScore (score_num Infinity m) = NaN"
  "emissionKg m = Num x \<Longrightarrow> greenScore (score_num Infinity m) = Num 100"
  by (simp_all add: score_num_def strict_eq_num_def roundTo_num_def Let_def Math_max2_def
      to_number_small)

lemma summary_num_member:
  assumes "m \<in> set (scored_num d p)"
  shows "(key m, emissionKg m, greenScore m) \<in> set (summary_num (computeModes_num d p))"
  using assms by (simp add: summary_num_def computeModes_num_closed_form set_array_sort_num)

lemma far_maxEmission: "maxEmission_num (eligible_num (71 * 10 ^ 304) p) = Infinity"
proof -
  let ?d = "71 * 10 ^ 304 :: real"
  have d: "0 \<le> ?d" by simp
  have "(''flight'', 255 / 1000) \<in> set EMISSION_FACTORS"
    by (simp add: EMISSION_FACTORS_def)
  then have "pushed_num ?d (''flight'', 255 / 1000) \<in> set (eligible_num ?d p)"
    by (simp add: eligible_num_def far_not_skipped del: power_numeral)
  moreover have "emissionKg (pushed_num ?d (''flight'', 255 / 1000)) = Infinity"
    by (simp only: pushed_num_emission snd_conv flight_overflows)
  moreover have "\<forall>m \<in> set (eligible_num ?d p). emissionKg m \<noteq> NaN"
    using eligible_num_never_NaN [OF d] by blast
  ultimately show ?thesis
    by (rule maxEmission_num_Infinity)
qed

lemma far_flight:
  "(''flight'', Infinity, NaN) \<in> set (summary_num (computeModes_num (71 * 10 ^ 304) p))"
proof -
  let ?d = "71 * 10 ^ 304 :: real"
  let ?m = "score_num Infinity (pushed_num ?d (''flight'', 255 / 1000))"
  have e: "emissionKg (pushed_num ?d (''flight'', 255 / 1000)) = Infinity"
    by (simp only: pushed_num_emission snd_conv flight_overflows)
  have "(''flight'', 255 / 1000) \<in> set EMISSION_FACTORS"
    by (simp add: EMISSION_FACTORS_def)
  then have "pushed_num ?d (''flight'', 255 / 1000) \<in> set (eligible_num ?d p)"
    by (simp add: eligible_num_def far_not_skipped del: power_numeral)
  then have "?m \<in> set (scored_num ?d p)"
    by (simp add: scored_num_def far_maxEmission del: power_numeral)
  then have "(key ?m, emissionKg ?m, greenScore ?m) \<in> set (summary_num (computeModes_num ?d p))"
    by (rule summary_num_member)
  moreover have "key ?m = ''flight''"
    by (simp add: score_num_fields pushed_num_def Let_def del: times_num.simps)
  moreover have "emissionKg ?m = Infinity"
    by (simp only: score_num_fields e)
  moreover have "greenScore ?m = NaN"
    using e by (rule score_num_under_Infinity)
  ultimately show ?thesis by simp
qed

lemma far_car:
  "(''car'', Num (13632 * 10 ^ 301), Num 100) \<in>
     set (summary_num (computeModes_num (71 * 10 ^ 304) p))"
proof -
  let ?d = "71 * 10 ^ 304 :: real"
  let ?m = "score_num Infinity (pushed_num ?d (''car'', 192 / 1000))"
  have e: "emissionKg (pushed_num ?d (''car'', 192 / 1000)) = Num (13632 * 10 ^ 301)"
    by (simp only: pushed_num_emission snd_conv car_stays_finite)
  have "(''car'', 192 / 1000) \<in> set EMISSION_FACTORS"
    by (simp add: EMISSION_FACTORS_def)
  then have "pushed_num ?d (''car'', 192 / 1000) \<in> set (eligible_num ?d p)"
    by (simp add: eligible_num_def far_not_skipped del: power_numeral)
  then have "?m \<in> set (scored_num ?d p)"
    by (simp add: scored_num_def far_maxEmission del: power_numeral)
  then have "(key ?m, emissionKg ?m, greenScore ?m) \<in> set (summary_num (computeModes_num ?d p))"
    by (rule summary_num_member)
  moreover have "key ?m = ''car''"
    by (simp add: score_num_fields pushed_num_def Let_def del: times_num.simps)
  moreover have "emissionKg ?m = Num (13632 * 10 ^ 301)"
    by (simp only: score_num_fields e)
  moreover have "greenScore ?m = Num 100"
    using e by (rule score_num_under_Infinity)
  ultimately show ?thesis by simp
qed

text \<open>
  Two runs against the claim as stated. At one metre every emission rounds to 0, the
  default maximum 1 is used and every mode, the highest-emitting ones included, scores
  100 and not 20. At \<open>7.1 * 10^305\<close> km the flight's emission is \<open>Infinity\<close> and its score
  is \<open>NaN\<close>, which is neither an integer between 20 and 100 nor 20.
\<close>

theorem greenScore_range_counterexample:
  "summary_num (computeModes_num (1 / 1000) ''work'') =
     [(''walk'', Num 0, Num 100), (''cycle'', Num 0, Num 100), (''bike'', Num 0, Num 100),
      (''car'', Num 0, Num 100), (''carpool'', Num 0, Num 100), (''evCar'', Num 0, Num 100)] \<and>
   (''flight'', Infinity, NaN) \<in> set (summary_num (computeModes_num (71 * 10 ^ 304) ''work''))"
proof
  show "summary_num (computeModes_num (1 / 1000) ''work'') =
     [(''walk'', Num 0, Num 100), (''cycle'', Num 0, Num 100), (''bike'', Num 0, Num 100),
      (''car'', Num 0, Num 100), (''carpool'', Num 0, Num 100), (''evCar'', Num 0, Num 100)]"
    by (simp add: summary_num_def computeModes_num_def EMISSION_FACTORS_def MODE_META_def
        skipped_def roundTo_num_def to_number_small maxEmission_num_def nonZero_num_def
        score_num_def array_sort_num_def by_emission_num_def Math_max_list_def Math_max2_def
        strict_eq_num_def Let_def)
  show "(''flight'', Infinity, NaN) \<in> set (summary_num (computeModes_num (71 * 10 ^ 304) ''work''))"
    by (rule far_flight)
qed

text \<open>
  Claim C7, as amended. Within one result in which every \<open>emissionKg\<close> is finite, which is
  the case at least up to a distance of \<open>10^305\<close> km, \<open>greenScore\<close> does not increase with
  \<open>emissionKg\<close>: for evaluations \<open>a\<close> and \<open>b\<close> of the result with
  \<open>emissionKg a \<le> emissionKg b\<close>, \<open>greenScore a \<ge> greenScore b\<close>.
\<close>

theorem greenScore_monotone:
  assumes "0 < d"
  shows "\<exists>ms. computeModes_num d p = Inr ms \<and>
           ((\<forall>m \<in> set ms. isFinite (emissionKg m)) \<longrightarrow>
              (\<forall>a \<in> set ms. \<forall>b \<in> set ms.
                 less_eq_num (emissionKg a) (emissionKg b) \<longrightarrow>
                 less_eq_num (greenScore b) (greenScore a))) \<and>
           (d \<le> 10 ^ 305 \<longrightarrow> (\<forall>m \<in> set ms. isFinite (emissionKg m)))"
proof -
  let ?ms = "array_sort_num by_emission_num (scored_num d p)"
  from assms have d: "0 \<le> d" by simp
  have mono: "\<forall>a \<in> set ?ms. \<forall>b \<in> set ?ms.
      less_eq_num (emissionKg a) (emissionKg b) \<longrightarrow> less_eq_num (greenScore b) (greenScore a)"
    if fin: "\<forall>m \<in> set ?ms. isFinite (emissionKg m)"
  proof (intro ballI impI)
    fix a b
    assume a: "a \<in> set ?ms" and b: "b \<in> set ?ms"
      and le: "less_eq_num (emissionKg a) (emissionKg b)"
    from d fin have ex: "set ?ms = as_number_evaluation ` set (scored d p)"
      by (rule finite_result_exact)
    from a ex obtain va where va: "va \<in> set (scored d p)" and ea: "a = as_number_evaluation va"
      by auto
    from b ex obtain vb where vb: "vb \<in> set (scored d p)" and eb: "b = as_number_evaluation vb"
      by auto
    from le have "emissionKg va \<le> emissionKg vb"
      by (simp add: ea eb emissionKg_as_number less_eq_num_Num)
    with va vb have "greenScore vb \<le> greenScore va"
      by (rule scored_antimono)
    then show "less_eq_num (greenScore b) (greenScore a)"
      by (simp add: ea eb emissionKg_as_number less_eq_num_Num)
  qed
  have upto: "\<forall>m \<in> set ?ms. isFinite (emissionKg m)" if "d \<le> 10 ^ 305"
    using d that by (rule finite_up_to)
  show ?thesis
  proof (intro exI conjI)
    show "computeModes_num d p = Inr ?ms" by (rule computeModes_num_closed_form)
    show "(\<forall>m \<in> set ?ms. isFinite (emissionKg m)) \<longrightarrow>
        (\<forall>a \<in> set ?ms. \<forall>b \<in> set ?ms.
           less_eq_num (emissionKg a) (emissionKg b) \<longrightarrow>
           less_eq_num (greenScore b) (greenScore a))"
      using mono by blast
    show "d \<le> 10 ^ 305 \<longrightarrow> (\<forall>m \<in> set ?ms. isFinite (emissionKg m))"
      using upto by blast
  qed
qed

theorem greenScore_monotone_witness:
  "0 < (2 :: real) \<and> (2 :: real) \<le> 10 ^ 305 \<and>
   summary_num (computeModes_num 2 ''casual'') =
     [(''walk'', Num 0, Num 100), (''cycle'', Num 0, Num 100),
      (''evCar'', Num (1 / 10), Num 79), (''carpool'', Num (16 / 125), Num 73),
      (''bike'', Num (103 / 500), Num 57), (''bus'', Num (21 / 100), Num 56),
      (''car'', Num (48 / 125), Num 20)] \<and>
   (\<exists>ms. computeModes_num 2 ''casual'' = Inr ms \<and>
      (\<forall>m \<in> set ms. isFinite (emissionKg m)) \<and>
      (\<forall>a \<in> set ms. \<forall>b \<in> set ms.
         less_eq_num (emissionKg a) (emissionKg b) \<longrightarrow>
         less_eq_num (greenScore b) (greenScore a)))"
proof -
  have pos: "0 < (2 :: real)" by simp
  have near: "(2 :: real) \<le> 10 ^ 305"
    using one_le_power [of "10 :: real" 305] power_increasing [of 1 305 "10 :: real"] by simp
  have run: "summary_num (computeModes_num 2 ''casual'') =
     [(''walk'', Num 0, Num 100), (''cycle'', Num 0, Num 100),
      (''evCar'', Num (1 / 10), Num 79), (''carpool'', Num (16 / 125), Num 73),
      (''bike'', Num (103 / 500), Num 57), (''bus'', Num (21 / 100), Num 56),
      (''car'', Num (48 / 125), Num 20)]"
    by (simp add: summary_num_def computeModes_num_def EMISSION_FACTORS_def MODE_META_def
        skipped_def roundTo_num_def to_number_small maxEmission_num_def nonZero_num_def
        score_num_def array_sort_num_def by_emission_num_def Math_max_list_def Math_max2_def
        strict_eq_num_def Let_def)
  from greenScore_monotone [OF pos, of "''casual''"] near
  have "\<exists>ms. computeModes_num 2 ''casual'' = Inr ms \<and>
      (\<forall>m \<in> set ms. isFinite (emissionKg m)) \<and>
      (\<forall>a \<in> set ms. \<forall>b \<in> set ms.
         less_eq_num (emissionKg a) (emissionKg b) \<longrightarrow>
         less_eq_num (greenScore b) (greenScore a))"
    by blast
  with pos near run show ?thesis by (intro conjI)
qed

text \<open>
  At \<open>7.1 * 10^305\<close> km the car's emission is finite and below the flight's, which is
  \<open>Infinity\<close>; the car scores 100 and the flight \<open>NaN\<close>, and \<open>100 >= NaN\<close> is false.
\<close>

theorem greenScore_monotone_counterexample:
  "(''car'', Num (13632 * 10 ^ 301), Num 100) \<in>
     set (summary_num (computeModes_num (71 * 10 ^ 304) ''work'')) \<and>
   (''flight'', Infinity, NaN) \<in> set (summary_num (computeModes_num (71 * 10 ^ 304) ''work'')) \<and>
   less_eq_num (Num (13632 * 10 ^ 301)) Infinity \<and>
   \<not> less_eq_num NaN (Num 100)"
proof (intro conjI)
  show "(''car'', Num (13632 * 10 ^ 301), Num 100) \<in>
      set (summary_num (computeModes_num (71 * 10 ^ 304) ''work''))"
    by (rule far_car)
  show "(''flight'', Infinity, NaN) \<in> set (summary_num (computeModes_num (71 * 10 ^ 304) ''work''))"
    by (rule far_flight)
  show "less_eq_num (Num (13632 * 10 ^ 301)) Infinity"
    by (simp add: less_eq_num_def del: power_numeral)
  show "\<not> less_eq_num NaN (Num 100)"
    by (simp add: less_eq_num_def strict_eq_num_def)
qed

section \<open>Emissions and the distance\<close>

lemma table_distinct: "distinct (map fst EMISSION_FACTORS)"
  by (simp add: EMISSION_FACTORS_def)

lemma factor_unique:
  assumes "e \<in> set EMISSION_FACTORS" and "e' \<in> set EMISSION_FACTORS" and "fst e = fst e'"
  shows "snd e = snd e'"
proof -
  from assms(1) have "map_of EMISSION_FACTORS (fst e) = Some (snd e)"
    using table_distinct by (simp add: map_of_is_SomeI)
  moreover from assms(2) have "map_of EMISSION_FACTORS (fst e') = Some (snd e')"
    using table_distinct by (simp add: map_of_is_SomeI)
  ultimately show ?thesis using assms(3) by simp
qed

lemma result_entry:
  assumes "m \<in> set (sort_key emissionKg (scored d p))"
  obtains e where "e \<in> set EMISSION_FACTORS" and "key m = fst e"
    and "emissionKg m = roundTo (snd e * d) 3"
proof -
  from assms obtain m0 where m0: "m0 \<in> set (eligible d p)"
    and eq: "m = score (maxEmission (eligible d p)) m0"
    by (rule result_member)
  from m0 obtain e where e: "e \<in> set EMISSION_FACTORS" and p: "m0 = pushed d e"
    by (auto simp: eligible_def)
  have "key m = fst e" by (simp add: eq p score_fields key_pushed)
  moreover have "emissionKg m = roundTo (snd e * d) 3"
    by (simp add: eq p score_fields emissionKg_pushed)
  ultimately show thesis using e that by blast
qed

text \<open>
  Claim C6. For a distance \<open>d > 0\<close>, a purpose \<open>p\<close> and a mode present in the results for
  \<open>d\<close> and for \<open>2 * d\<close>, the emission at \<open>2 * d\<close> differs from twice the emission at \<open>d\<close>
  by at most 0.001, in exact arithmetic with the rounding to 3 decimals.
\<close>

theorem emission_doubles:
  assumes "0 < d"
  shows "\<exists>ms ms2. computeModes d p = Inr ms \<and> computeModes (2 * d) p = Inr ms2 \<and>
           (\<forall>a \<in> set ms. \<forall>b \<in> set ms2.
              key a = key b \<longrightarrow> \<bar>emissionKg b - 2 * emissionKg a\<bar> \<le> 1 / 1000)"
proof -
  let ?ms = "sort_key emissionKg (scored d p)"
  let ?ms2 = "sort_key emissionKg (scored (2 * d) p)"
  have "\<bar>emissionKg b - 2 * emissionKg a\<bar> \<le> 1 / 1000"
    if a: "a \<in> set ?ms" and b: "b \<in> set ?ms2" and k: "key a = key b" for a b
  proof -
    from a obtain e where e: "e \<in> set EMISSION_FACTORS" "key a = fst e"
      "emissionKg a = roundTo (snd e * d) 3"
      by (rule result_entry)
    from b obtain e' where e': "e' \<in> set EMISSION_FACTORS" "key b = fst e'"
      "emissionKg b = roundTo (snd e' * (2 * d)) 3"
      by (rule result_entry)
    from e(1) e'(1) have "snd e = snd e'"
      by (rule factor_unique) (simp add: e(2) [symmetric] e'(2) [symmetric] k)
    then have "emissionKg b = roundTo (2 * (snd e * d)) 3"
      by (simp add: e'(3) mult.left_commute)
    then show ?thesis
      unfolding e(3) by (simp only: roundTo_double)
  qed
  then have all: "\<forall>a \<in> set ?ms. \<forall>b \<in> set ?ms2.
      key a = key b \<longrightarrow> \<bar>emissionKg b - 2 * emissionKg a\<bar> \<le> 1 / 1000"
    by blast
  show ?thesis
  proof (intro exI conjI)
    show "computeModes d p = Inr ?ms" by (rule computeModes_closed_form)
    show "computeModes (2 * d) p = Inr ?ms2" by (rule computeModes_closed_form)
    show "\<forall>a \<in> set ?ms. \<forall>b \<in> set ?ms2.
        key a = key b \<longrightarrow> \<bar>emissionKg b - 2 * emissionKg a\<bar> \<le> 1 / 1000"
      by (rule all)
  qed
qed

theorem emission_doubles_witness:
  "0 < (1 / 80 :: real) \<and>
   summary (computeModes (1 / 80) ''work'') =
     [(''walk'', 0, 100), (''cycle'', 0, 100), (''bike'', 1 / 1000, 60),
      (''carpool'', 1 / 1000, 60), (''evCar'', 1 / 1000, 60), (''car'', 2 / 1000, 20)] \<and>
   summary (computeModes (2 * (1 / 80)) ''work'') =
     [(''walk'', 0, 100), (''cycle'', 0, 100), (''evCar'', 1 / 1000, 84),
      (''carpool'', 2 / 1000, 68), (''bike'', 3 / 1000, 52), (''car'', 5 / 1000, 20)] \<and>
   (\<exists>ms ms2. computeModes (1 / 80) ''work'' = Inr ms \<and>
      computeModes (2 * (1 / 80)) ''work'' = Inr ms2 \<and>
      (\<forall>a \<in> set ms. \<forall>b \<in> set ms2.
         key a = key b \<longrightarrow> \<bar>emissionKg b - 2 * emissionKg a\<bar> \<le> 1 / 1000))"
proof -
  have pos: "0 < (1 / 80 :: real)" by simp
  have run: "summary (computeModes (1 / 80) ''work'') =
     [(''walk'', 0, 100), (''cycle'', 0, 100), (''bike'', 1 / 1000, 60),
      (''carpool'', 1 / 1000, 60), (''evCar'', 1 / 1000, 60), (''car'', 2 / 1000, 20)]"
    by (simp add: summary_def computeModes_def EMISSION_FACTORS_def MODE_META_def
        skipped_def roundTo_def Math_round_def maxEmission_def nonZero_def score_def
        array_sort_def by_emission_def)
  have run2: "summary (computeModes (2 * (1 / 80)) ''work'') =
     [(''walk'', 0, 100), (''cycle'', 0, 100), (''evCar'', 1 / 1000, 84),
      (''carpool'', 2 / 1000, 68), (''bike'', 3 / 1000, 52), (''car'', 5 / 1000, 20)]"
    by (simp add: summary_def computeModes_def EMISSION_FACTORS_def MODE_META_def
        skipped_def roundTo_def Math_round_def maxEmission_def nonZero_def score_def
        array_sort_def by_emission_def)
  from pos run run2 emission_doubles [OF pos, of "''work''"] show ?thesis
    by (intro conjI)
qed

section \<open>Ranking\<close>

lemma sorted_ends:
  assumes "sorted (map f xs)" and "x \<in> set xs"
  shows "f (hd xs) \<le> f x \<and> f x \<le> f (last xs)"
proof
  from assms show "f (hd xs) \<le> f x"
    by (cases xs) auto
next
  from assms(2) have "xs \<noteq> []" by auto
  then have split: "xs = butlast xs @ [last xs]" by simp
  with assms(1) have "sorted (map f (butlast xs) @ [f (last xs)])"
    by (metis list.simps(8) list.simps(9) map_append)
  then have "\<forall>a \<in> set (map f (butlast xs)). a \<le> f (last xs)"
    by (simp add: sorted_append)
  moreover from assms(2) split have "x \<in> set (butlast xs) \<or> x = last xs"
    by (metis Un_iff empty_iff empty_set set_ConsD set_append)
  ultimately show "f x \<le> f (last xs)" by auto
qed

text \<open>
  Claim C5. The list returned by \<open>computeModes\<close> is sorted ascending by \<open>emissionKg\<close>;
  modes with the same emission appear in the order of the factor table (whose keys are
  distinct), so the sort is stable; the list is not empty, its first element has the lowest
  and its last element the highest emission.
\<close>

theorem result_sorted_stable:
  "\<exists>ms. computeModes d p = Inr ms \<and>
     sorted (map emissionKg ms) \<and>
     distinct (map fst EMISSION_FACTORS) \<and>
     (\<forall>e. subseq (map key (filter (\<lambda>m. emissionKg m = e) ms)) (map fst EMISSION_FACTORS)) \<and>
     ms \<noteq> [] \<and>
     (\<forall>m \<in> set ms. emissionKg (hd ms) \<le> emissionKg m \<and> emissionKg m \<le> emissionKg (last ms))"
proof -
  let ?ms = "sort_key emissionKg (scored d p)"
  have srt: "sorted (map emissionKg ?ms)" by (rule sorted_sort_key)
  have stable: "subseq (map key (filter (\<lambda>m. emissionKg m = e) ?ms)) (map fst EMISSION_FACTORS)"
    for e
  proof -
    have "filter (\<lambda>m. emissionKg m = e) ?ms = filter (\<lambda>m. emissionKg m = e) (scored d p)"
      by (rule sort_key_stable)
    moreover have "subseq (map key (filter (\<lambda>m. emissionKg m = e) (scored d p)))
        (map key (scored d p))"
      by (rule subseq_map) (rule subseq_filter_left)
    moreover have "subseq (map key (scored d p)) (map fst EMISSION_FACTORS)"
      unfolding keys_scored by (rule subseq_filter_left)
    ultimately show ?thesis
      using subseq_order.trans by metis
  qed
  have "''walk'' \<in> set (map fst EMISSION_FACTORS)"
    unfolding table_keys by simp
  moreover have "\<not> skipped d p ''walk''"
    by (rule never_skipped) simp
  ultimately have "''walk'' \<in> key ` set ?ms"
    unfolding result_key_set by simp
  then obtain m where m: "m \<in> set ?ms" by blast
  have ne: "?ms \<noteq> []"
    by (metis m empty_iff list.set(1))
  have ends: "\<forall>m \<in> set ?ms. emissionKg (hd ?ms) \<le> emissionKg m \<and> emissionKg m \<le> emissionKg (last ?ms)"
    using sorted_ends [OF srt] by blast
  show ?thesis
  proof (intro exI conjI)
    show "computeModes d p = Inr ?ms" by (rule computeModes_closed_form)
    show "sorted (map emissionKg ?ms)" by (rule srt)
    show "distinct (map fst EMISSION_FACTORS)" by (rule table_distinct)
    show "\<forall>e. subseq (map key (filter (\<lambda>m. emissionKg m = e) ?ms)) (map fst EMISSION_FACTORS)"
      using stable by blast
    show "?ms \<noteq> []" by (rule ne)
    show "\<forall>m \<in> set ?ms. emissionKg (hd ?ms) \<le> emissionKg m \<and> emissionKg m \<le> emissionKg (last ?ms)"
      by (rule ends)
  qed
qed

theorem result_sorted_stable_witness:
  "summary (computeModes (1 / 80) ''casual'') =
     [(''walk'', 0, 100), (''cycle'', 0, 100), (''bike'', 1 / 1000, 60),
      (''carpool'', 1 / 1000, 60), (''evCar'', 1 / 1000, 60), (''car'', 2 / 1000, 20)] \<and>
   (\<exists>ms. computeModes (1 / 80) ''casual'' = Inr ms \<and>
     sorted (map emissionKg ms) \<and>
     distinct (map fst EMISSION_FACTORS) \<and>
     (\<forall>e. subseq (map key (filter (\<lambda>m. emissionKg m = e) ms)) (map fst EMISSION_FACTORS)) \<and>
     ms \<noteq> [] \<and>
     (\<forall>m \<in> set ms. emissionKg (hd ms) \<le> emissionKg m \<and> emissionKg m \<le> emissionKg (last ms)))"
proof -
  have run: "summary (computeModes (1 / 80) ''casual'') =
     [(''walk'', 0, 100), (''cycle'', 0, 100), (''bike'', 1 / 1000, 60),
      (''carpool'', 1 / 1000, 60), (''evCar'', 1 / 1000, 60), (''car'', 2 / 1000, 20)]"
    by (simp add: summary_def computeModes_def EMISSION_FACTORS_def MODE_META_def
        skipped_def roundTo_def Math_round_def maxEmission_def nonZero_def score_def
        array_sort_def by_emission_def)
  from run result_sorted_stable [of "1 / 80" "''casual''"] show ?thesis
    by (intro conjI)
qed

section \<open>The top choice\<close>

lemma eligible_walk:
  "eligible d p =
     pushed d (''walk'', 0) #
     map (pushed d) (filter (\<lambda>e. \<not> skipped d p (fst e)) (tl EMISSION_FACTORS))"
proof -
  define others where "others = tl EMISSION_FACTORS"
  have table: "EMISSION_FACTORS = (''walk'', 0) # others"
    by (simp add: others_def EMISSION_FACTORS_def)
  have walk: "\<not> skipped d p ''walk''"
    by (rule never_skipped) simp
  show ?thesis
    unfolding eligible_def others_def [symmetric] by (simp add: table walk)
qed

lemma pushed_walk:
  "key (pushed d (''walk'', 0)) = ''walk''" "label (pushed d (''walk'', 0)) = ''Walking''"
  "emissionKg (pushed d (''walk'', 0)) = 0"
  by (simp_all add: pushed_def MODE_META_def roundTo_def Math_round_def)

lemma result_walk_first:
  assumes "0 \<le> d"
  shows "\<exists>rest. sort_key emissionKg (scored d p) =
           score (maxEmission (eligible d p)) (pushed d (''walk'', 0)) # rest"
proof -
  let ?M = "maxEmission (eligible d p)"
  let ?w = "score ?M (pushed d (''walk'', 0))"
  obtain tail where sc: "scored d p = ?w # tail"
    by (simp add: scored_def eligible_walk)
  have w0: "emissionKg ?w = 0"
    by (simp add: score_fields pushed_walk)
  have "\<forall>m \<in> set (sort_key emissionKg tail). emissionKg ?w \<le> emissionKg m"
  proof
    fix m
    assume "m \<in> set (sort_key emissionKg tail)"
    then have "m \<in> set (scored d p)" by (simp add: sc)
    with assms have "0 \<le> emissionKg m" by (rule scored_nonneg)
    then show "emissionKg ?w \<le> emissionKg m" by (simp only: w0)
  qed
  then have "insort_key emissionKg ?w (sort_key emissionKg tail) = ?w # sort_key emissionKg tail"
    by (rule insort_is_Cons)
  then have "sort_key emissionKg (scored d p) = ?w # sort_key emissionKg tail"
    by (simp add: sc)
  then show ?thesis by blast
qed

lemma computeModes_walk_first:
  assumes "0 \<le> d"
  shows "\<exists>best rest. computeModes d p = Inr (best # rest) \<and> key best = ''walk'' \<and>
           label best = ''Walking'' \<and> emissionKg best = 0 \<and> greenScore best = 100"
proof -
  let ?w = "score (maxEmission (eligible d p)) (pushed d (''walk'', 0))"
  from assms obtain rest where "sort_key emissionKg (scored d p) = ?w # rest"
    using result_walk_first by blast
  then have "computeModes d p = Inr (?w # rest)"
    by (simp add: computeModes_closed_form)
  moreover have "key ?w = ''walk''" "label ?w = ''Walking''" "emissionKg ?w = 0"
    by (simp_all add: score_fields pushed_walk)
  moreover have "greenScore ?w = 100"
    by (rule greenScore_zero) (simp add: pushed_walk)
  ultimately show ?thesis by blast
qed

lemma roundTo_2_nonneg: "0 < x \<Longrightarrow> 0 \<le> roundTo x 2"
  by (rule roundTo_nonneg) simp

lemma saveRecentTrip_head:
  assumes "saveRecentTrip t ls = Inr (saved, ls')"
  shows "\<exists>older. saved = t # older"
  using assms by (auto simp: saveRecentTrip_def Let_def split: if_splits)

text \<open>
  Claim C10. For every distance greater than 0 and every purpose, the first element of the
  list returned by \<open>computeModes\<close> is the walk mode, with \<open>emissionKg = 0\<close> and
  \<open>greenScore = 100\<close>; and whenever the submit handler saves a record, the record it puts
  at the head of the recent trips has \<open>bestLabel = ''Walking''\<close>.
\<close>

theorem walk_is_top_choice:
  "(0 < d \<longrightarrow>
      (\<exists>ms. computeModes d p = Inr ms \<and> ms \<noteq> [] \<and> key (hd ms) = ''walk'' \<and>
         label (hd ms) = ''Walking'' \<and> emissionKg (hd ms) = 0 \<and> greenScore (hd ms) = 100)) \<and>
   (submit fromValue toValue purposeValue parsed ls = Inr (Shown modes (Some newList) ls') \<longrightarrow>
      newList \<noteq> [] \<and> bestLabel (hd newList) = ''Walking'')"
proof (intro conjI impI)
  assume "0 < d"
  then have "0 \<le> d" by simp
  then obtain best rest where "computeModes d p = Inr (best # rest)" "key best = ''walk''"
    "label best = ''Walking''" "emissionKg best = 0" "greenScore best = 100"
    using computeModes_walk_first by blast
  then show "\<exists>ms. computeModes d p = Inr ms \<and> ms \<noteq> [] \<and> key (hd ms) = ''walk'' \<and>
      label (hd ms) = ''Walking'' \<and> emissionKg (hd ms) = 0 \<and> greenScore (hd ms) = 100"
    by simp
next
  assume run: "submit fromValue toValue purposeValue parsed ls = Inr (Shown modes (Some newList) ls')"
  let ?purpose = "if purposeValue = [] then ''daily'' else purposeValue"
  from run obtain x where parsed: "parsed = Some x"
    by (cases parsed) (simp_all add: submit_def)
  from run have x: "0 < x"
    by (cases "x \<le> 0") (simp_all add: submit_def parsed)
  then have "0 \<le> roundTo x 2" by (rule roundTo_2_nonneg)
  then obtain best rest where cm: "computeModes (roundTo x 2) ?purpose = Inr (best # rest)"
    and lab: "label best = ''Walking''"
    using computeModes_walk_first by blast
  let ?t = "\<lparr>trip_from = (if fromValue = [] then ''Unknown'' else fromValue),
             trip_to = (if toValue = [] then ''Unknown'' else toValue),
             distance = roundTo x 2, bestLabel = label best, bestEmission = emissionKg best,
             tripType = classifyTrip (roundTo x 2), purposeLabel = purposeLabelOf ?purpose\<rparr>"
  from x have nx: "\<not> x \<le> 0" by simp
  have "submit fromValue toValue purposeValue parsed ls =
      (case saveRecentTrip ?t ls of
         Inl e \<Rightarrow> Inl e
       | Inr (saved, st) \<Rightarrow> Inr (Shown (best # rest) (Some saved) st))"
    by (simp add: submit_def parsed Let_def cm nx split del: if_split)
  with run have "saveRecentTrip ?t ls = Inr (newList, ls')"
    by (cases "saveRecentTrip ?t ls") (auto split del: if_split)
  then obtain older where "newList = ?t # older"
    using saveRecentTrip_head by blast
  then show "newList \<noteq> []" and "bestLabel (hd newList) = ''Walking''"
    by (simp_all add: lab)
qed

theorem walk_is_top_choice_witness:
  "0 < (10 :: real) \<and>
   (\<exists>ms. computeModes 10 ''work'' = Inr ms \<and> ms \<noteq> [] \<and> key (hd ms) = ''walk'' \<and>
      label (hd ms) = ''Walking'' \<and> emissionKg (hd ms) = 0 \<and> greenScore (hd ms) = 100) \<and>
   (\<exists>modes newList ls'.
      submit ''Home'' ''Office'' ''work'' (Some 10)
        \<lparr>recent_item = Missing, getItem_throws = False, setItem_throws = False\<rparr> =
        Inr (Shown modes (Some newList) ls') \<and>
      newList \<noteq> [] \<and> bestLabel (hd newList) = ''Walking'')"
proof -
  let ?ls = "\<lparr>recent_item = Missing, getItem_throws = False, setItem_throws = False\<rparr>"
  have pos: "0 < (10 :: real)" by simp
  have r10: "roundTo 10 2 = 10"
    by (simp add: roundTo_def Math_round_def)
  obtain best rest where cm: "computeModes 10 ''work'' = Inr (best # rest)"
    using computeModes_walk_first [of 10 "''work''"] by auto
  let ?t = "\<lparr>trip_from = ''Home'', trip_to = ''Office'', distance = 10,
             bestLabel = label best, bestEmission = emissionKg best,
             tripType = ''Medium city / town trip'', purposeLabel = ''Work / Business''\<rparr>"
  let ?ls' = "\<lparr>recent_item = TripArray [?t], getItem_throws = False, setItem_throws = False\<rparr>"
  have run: "submit ''Home'' ''Office'' ''work'' (Some 10) ?ls =
      Inr (Shown (best # rest) (Some [?t]) ?ls')"
    by (simp add: submit_def r10 cm saveRecentTrip_def loadRecentTrips_def classifyTrip_def
        purposeLabelOf_def Let_def)
  note inst = walk_is_top_choice [where d = 10 and p = "''work''" and fromValue = "''Home''"
      and toValue = "''Office''" and purposeValue = "''work''" and parsed = "Some 10"
      and ls = ?ls and modes = "best # rest" and newList = "[?t]" and ls' = ?ls']
  from inst pos have first: "\<exists>ms. computeModes 10 ''work'' = Inr ms \<and> ms \<noteq> [] \<and>
      key (hd ms) = ''walk'' \<and> label (hd ms) = ''Walking'' \<and> emissionKg (hd ms) = 0 \<and>
      greenScore (hd ms) = 100"
    by blast
  from inst run have "[?t] \<noteq> [] \<and> bestLabel (hd [?t]) = ''Walking''"
    by blast
  with run have second: "\<exists>modes newList ls'.
      submit ''Home'' ''Office'' ''work'' (Some 10) ?ls = Inr (Shown modes (Some newList) ls') \<and>
      newList \<noteq> [] \<and> bestLabel (hd newList) = ''Walking''"
    by blast
  from pos first second show ?thesis by (intro conjI)
qed

section \<open>Recent trips\<close>

lemma loadRecentTrips_stored:
  "\<not> getItem_throws ls \<Longrightarrow> loadRecentTrips (ls\<lparr>recent_item := TripArray xs\<rparr>) = xs"
  by (simp add: loadRecentTrips_def)

lemma saveRecentTrip_working:
  assumes "\<not> getItem_throws ls" and "\<not> setItem_throws ls"
  shows "saveRecentTrip t ls =
           Inr (take 6 (t # loadRecentTrips ls),
                ls\<lparr>recent_item := TripArray (take 6 (t # loadRecentTrips ls))\<rparr>)"
    and "loadRecentTrips (ls\<lparr>recent_item := TripArray (take 6 (t # loadRecentTrips ls))\<rparr>) =
           take 6 (t # loadRecentTrips ls)"
proof -
  from assms(2) show "saveRecentTrip t ls =
      Inr (take 6 (t # loadRecentTrips ls),
           ls\<lparr>recent_item := TripArray (take 6 (t # loadRecentTrips ls))\<rparr>)"
    by (simp add: saveRecentTrip_def Let_def)
  from assms(1) show "loadRecentTrips (ls\<lparr>recent_item := TripArray (take 6 (t # loadRecentTrips ls))\<rparr>) =
      take 6 (t # loadRecentTrips ls)"
    by (rule loadRecentTrips_stored)
qed

lemma take_append_take: "take n (xs @ take n ys) = take n (xs @ ys)"
  by (simp add: min_def)

lemma saveAll_working:
  assumes "\<not> getItem_throws ls" and "\<not> setItem_throws ls" and "ts \<noteq> []"
  shows "\<exists>ls'. saveAll ts ls = Inr (take 6 (rev ts @ loadRecentTrips ls), ls') \<and>
           loadRecentTrips ls' = take 6 (rev ts @ loadRecentTrips ls)"
  using assms
proof (induction ts arbitrary: ls)
  case Nil
  then show ?case by simp
next
  case (Cons t ts)
  let ?saved = "take 6 (t # loadRecentTrips ls)"
  let ?ls1 = "ls\<lparr>recent_item := TripArray ?saved\<rparr>"
  from Cons.prems have get: "\<not> getItem_throws ls" and set: "\<not> setItem_throws ls"
    by simp_all
  from get set have save: "saveRecentTrip t ls = Inr (?saved, ?ls1)"
    by (rule saveRecentTrip_working(1))
  from get set have load: "loadRecentTrips ?ls1 = ?saved"
    by (rule saveRecentTrip_working(2))
  show ?case
  proof (cases "ts = []")
    case True
    with save load show ?thesis by simp
  next
    case False
    from Cons.prems have "\<not> getItem_throws ?ls1" "\<not> setItem_throws ?ls1" by simp_all
    with False obtain ls' where
      "saveAll ts ?ls1 = Inr (take 6 (rev ts @ loadRecentTrips ?ls1), ls')"
      "loadRecentTrips ls' = take 6 (rev ts @ loadRecentTrips ?ls1)"
      using Cons.IH by blast
    moreover have "take 6 (rev ts @ loadRecentTrips ?ls1) = take 6 (rev (t # ts) @ loadRecentTrips ls)"
      unfolding load by (simp only: take_append_take rev.simps append_assoc append_Cons append_Nil)
    ultimately have "saveAll (t # ts) ls = Inr (take 6 (rev (t # ts) @ loadRecentTrips ls), ls')"
      and "loadRecentTrips ls' = take 6 (rev (t # ts) @ loadRecentTrips ls)"
      using False save by simp_all
    then show ?thesis by blast
  qed
qed

text \<open>
  Claim C9. With a working storage, \<open>saveRecentTrip\<close> puts the new record in front of the
  stored list, keeps the first 6 entries, stores them and returns them. Starting from an
  empty history, saving trips one after the other leaves the 6 most recent, newest first;
  after the seven trips \<open>t1, ..., t7\<close> the list is \<open>t7, ..., t2\<close> and \<open>t1\<close> is gone.
\<close>

theorem saveRecentTrip_keeps_six:
  assumes "\<not> getItem_throws ls" and "\<not> setItem_throws ls"
  shows "(\<exists>ls'. saveRecentTrip t ls = Inr (take 6 (t # loadRecentTrips ls), ls') \<and>
            loadRecentTrips ls' = take 6 (t # loadRecentTrips ls)) \<and>
         (loadRecentTrips ls = [] \<longrightarrow>
            (\<exists>ls'. saveRecentTrip t ls = Inr ([t], ls') \<and> loadRecentTrips ls' = [t]) \<and>
            (ts \<noteq> [] \<longrightarrow>
               (\<exists>ls'. saveAll ts ls = Inr (take 6 (rev ts), ls') \<and>
                  loadRecentTrips ls' = take 6 (rev ts))) \<and>
            (\<exists>ls'. saveAll [t1, t2, t3, t4, t5, t6, t7] ls = Inr ([t7, t6, t5, t4, t3, t2], ls') \<and>
               loadRecentTrips ls' = [t7, t6, t5, t4, t3, t2]))"
proof (intro conjI impI)
  from assms show one: "\<exists>ls'. saveRecentTrip t ls = Inr (take 6 (t # loadRecentTrips ls), ls') \<and>
      loadRecentTrips ls' = take 6 (t # loadRecentTrips ls)"
    using saveRecentTrip_working [of ls t] by blast
  {
    assume empty: "loadRecentTrips ls = []"
    from one show "\<exists>ls'. saveRecentTrip t ls = Inr ([t], ls') \<and> loadRecentTrips ls' = [t]"
      by (simp add: empty)
    {
      assume "ts \<noteq> []"
      with assms show "\<exists>ls'. saveAll ts ls = Inr (take 6 (rev ts), ls') \<and>
          loadRecentTrips ls' = take 6 (rev ts)"
        using saveAll_working [of ls ts] by (simp add: empty)
    }
    have "[t1, t2, t3, t4, t5, t6, t7] \<noteq> []" by simp
    with assms show "\<exists>ls'. saveAll [t1, t2, t3, t4, t5, t6, t7] ls = Inr ([t7, t6, t5, t4, t3, t2], ls') \<and>
        loadRecentTrips ls' = [t7, t6, t5, t4, t3, t2]"
      using saveAll_working [of ls "[t1, t2, t3, t4, t5, t6, t7]"] by (simp add: empty)
  }
qed

theorem saveRecentTrip_keeps_six_witness:
  "\<not> getItem_throws \<lparr>recent_item = Missing, getItem_throws = False, setItem_throws = False\<rparr> \<and>
   \<not> setItem_throws \<lparr>recent_item = Missing, getItem_throws = False, setItem_throws = False\<rparr> \<and>
   loadRecentTrips \<lparr>recent_item = Missing, getItem_throws = False, setItem_throws = False\<rparr> = [] \<and>
   saveAll [exampleTrip 1, exampleTrip 2, exampleTrip 3, exampleTrip 4, exampleTrip 5,
            exampleTrip 6, exampleTrip 7]
     \<lparr>recent_item = Missing, getItem_throws = False, setItem_throws = False\<rparr> =
     Inr ([exampleTrip 7, exampleTrip 6, exampleTrip 5, exampleTrip 4, exampleTrip 3, exampleTrip 2],
          \<lparr>recent_item = TripArray [exampleTrip 7, exampleTrip 6, exampleTrip 5, exampleTrip 4,
                                     exampleTrip 3, exampleTrip 2],
           getItem_throws = False, setItem_throws = False\<rparr>) \<and>
   (\<exists>ls'. saveRecentTrip (exampleTrip 1)
            \<lparr>recent_item = Missing, getItem_throws = False, setItem_throws = False\<rparr> =
            Inr ([exampleTrip 1], ls') \<and>
          loadRecentTrips ls' = [exampleTrip 1]) \<and>
   (\<exists>ls'. saveAll [exampleTrip 1, exampleTrip 2, exampleTrip 3, exampleTrip 4, exampleTrip 5,
                   exampleTrip 6, exampleTrip 7]
            \<lparr>recent_item = Missing, getItem_throws = False, setItem_throws = False\<rparr> =
            Inr ([exampleTrip 7, exampleTrip 6, exampleTrip 5, exampleTrip 4, exampleTrip 3,
                  exampleTrip 2], ls') \<and>
          loadRecentTrips ls' =
            [exampleTrip 7, exampleTrip 6, exampleTrip 5, exampleTrip 4, exampleTrip 3,
             exampleTrip 2])"
proof -
  let ?ls = "\<lparr>recent_item = Missing, getItem_throws = False, setItem_throws = False\<rparr>"
  have get: "\<not> getItem_throws ?ls" and set: "\<not> setItem_throws ?ls" by simp_all
  have empty: "loadRecentTrips ?ls = []"
    by (simp add: loadRecentTrips_def)
  have run: "saveAll [exampleTrip 1, exampleTrip 2, exampleTrip 3, exampleTrip 4, exampleTrip 5,
            exampleTrip 6, exampleTrip 7] ?ls =
     Inr ([exampleTrip 7, exampleTrip 6, exampleTrip 5, exampleTrip 4, exampleTrip 3, exampleTrip 2],
          \<lparr>recent_item = TripArray [exampleTrip 7, exampleTrip 6, exampleTrip 5, exampleTrip 4,
                                     exampleTrip 3, exampleTrip 2],
           getItem_throws = False, setItem_throws = False\<rparr>)"
    by (simp add: saveRecentTrip_def loadRecentTrips_def Let_def)
  note inst = saveRecentTrip_keeps_six [OF get set, of "exampleTrip 1"
      "[exampleTrip 1]" "exampleTrip 1" "exampleTrip 2" "exampleTrip 3" "exampleTrip 4"
      "exampleTrip 5" "exampleTrip 6" "exampleTrip 7"]
  from inst empty have one: "\<exists>ls'. saveRecentTrip (exampleTrip 1) ?ls = Inr ([exampleTrip 1], ls') \<and>
      loadRecentTrips ls' = [exampleTrip 1]"
    by blast
  from inst empty have seven: "\<exists>ls'. saveAll [exampleTrip 1, exampleTrip 2, exampleTrip 3,
        exampleTrip 4, exampleTrip 5, exampleTrip 6, exampleTrip 7] ?ls =
        Inr ([exampleTrip 7, exampleTrip 6, exampleTrip 5, exampleTrip 4, exampleTrip 3,
              exampleTrip 2], ls') \<and>
      loadRecentTrips ls' =
        [exampleTrip 7, exampleTrip 6, exampleTrip 5, exampleTrip 4, exampleTrip 3, exampleTrip 2]"
    by blast
  from get set empty run one seven show ?thesis by (intro conjI)
qed

end
